theory Spec2Isabelle
  imports Main "HOL-Library.AList"
begin

section \<open>Values and objects\<close>

text \<open>
  JavaScript values as far as the store layer looks at them: the primitives, and \<open>Ref\<close>
  for anything compared by identity (objects, arrays, functions held in the state).
  Numbers are the integers; \<open>Object.is\<close> on these values is HOL equality.
\<close>

datatype jsval = Undefined | Null | Bool bool | Num int | Str string | Ref nat

text \<open>
  An object is the list of its own enumerable entries, in the order \<open>Object.entries\<close>
  yields them. \<open>getprop\<close> is the member read \<open>o[k]\<close>, \<open>keys\<close> is \<open>Object.keys\<close>,
  \<open>assign\<close> is \<open>o[k] = v\<close> (an existing key keeps its place, a new one goes last) and
  \<open>spread a b\<close> is the literal \<open>{...a, ...b}\<close>. Property names that are array indices,
  which JavaScript enumerates before the others, are not told apart; the code looks at
  the order of the entries only where it loops over the computed map and the watchers,
  and there the registries are filled in the order of the loop over the addons.
\<close>

type_synonym obj = "(string \<times> jsval) list"

definition getprop :: "obj \<Rightarrow> string \<Rightarrow> jsval" where
  "getprop ob k = (case map_of ob k of None \<Rightarrow> Undefined | Some v \<Rightarrow> v)"

definition keys :: "(string \<times> 'a) list \<Rightarrow> string list" where
  "keys ob = map fst ob"

definition assign :: "(string \<times> 'a) list \<Rightarrow> string \<Rightarrow> 'a \<Rightarrow> (string \<times> 'a) list" where
  "assign ob k v = AList.update k v ob"

definition spread :: "obj \<Rightarrow> obj \<Rightarrow> obj" where
  "spread a b = fold (\<lambda>(k, v) acc. assign acc k v) b a"

text \<open>The operand of \<open>!\<close>: a value is falsy when it is one of these.\<close>

fun truthy :: "jsval \<Rightarrow> bool" where
  "truthy Undefined = False"
| "truthy Null = False"
| "truthy (Bool b) = b"
| "truthy (Num n) = (n \<noteq> 0)"
| "truthy (Str s) = (s \<noteq> [])"
| "truthy (Ref r) = True"

section \<open>Dependency extraction: \<open>getDeps\<close>\<close>

text \<open>
  A function value is its source text (\<open>fn.toString()\<close>) together with what calling it
  with a given \<open>this\<close> returns (\<open>fn.apply(ctx)\<close>).
\<close>

record computedFn =
  toString :: string
  apply_this :: "obj \<Rightarrow> jsval"

text \<open>
  The class \<open>\w\<close> of a regular expression without the unicode flag: the ASCII letters
  and digits and the underscore.
\<close>

definition word_char :: "char \<Rightarrow> bool" where
  "word_char c =
     (let n = (of_char c :: nat)
      in (48 \<le> n \<and> n \<le> 57) \<or> (65 \<le> n \<and> n \<le> 90) \<or> n = 95 \<or> (97 \<le> n \<and> n \<le> 122))"

text \<open>
  One attempt of \<open>/(?:this\.)(\w+)/\<close> at the start of a text: the first capture group and
  the length of the whole match. \<open>\w+\<close> is greedy and nothing follows it.
\<close>

definition exec_reg :: "string \<Rightarrow> (string \<times> nat) option" where
  "exec_reg s =
     (if take 5 s = ''this.'' then
        (let name = takeWhile word_char (drop 5 s)
         in if name = [] then None else Some (name, 5 + length name))
      else None)"

text \<open>
  One attempt of \<open>/(?:this\[')(\w+)(?:'\])/\<close> at the start of a text. The character after
  the longest run of word characters has to be the quote: a shorter run is followed by a
  word character, so backtracking finds nothing more.
\<close>

definition exec_reg2 :: "string \<Rightarrow> (string \<times> nat) option" where
  "exec_reg2 s =
     (if take 6 s = ''this['' @ [CHR 0x27] then
        (let name = takeWhile word_char (drop 6 s)
         in if name \<noteq> [] \<and> take 2 (dropWhile word_char (drop 6 s)) = [CHR 0x27, CHR '']'']
            then Some (name, 6 + length name + 2) else None)
      else None)"

text \<open>
  \<open>Array.from(text.matchAll(re))\<close> for a global expression: the matches from left to
  right, each search starting where the previous match ended. A match is kept as its
  index and its first group.
\<close>

fun matchAll :: "(string \<Rightarrow> (string \<times> nat) option) \<Rightarrow> nat \<Rightarrow> string \<Rightarrow> (nat \<times> string) list" where
  "matchAll ex i [] = []"
| "matchAll ex i (c # cs) =
     (case ex (c # cs) of
        Some (g, len) \<Rightarrow> (i, g) # matchAll ex (i + len) (drop (len - 1) cs)
      | None \<Rightarrow> matchAll ex (i + 1) cs)"

text \<open>
  \<open>Array.from(new Set(xs))\<close> for an array of objects. A \<open>Set\<close> compares objects by
  identity, so each element goes in with its reference; the match arrays are allocated
  one by one, which \<open>alloc\<close> records by numbering them.
\<close>

definition alloc :: "'a list \<Rightarrow> (nat \<times> 'a) list" where
  "alloc xs = zip [0..<length xs] xs"

fun Array_from_Set :: "(nat \<times> 'a) list \<Rightarrow> (nat \<times> 'a) list" where
  "Array_from_Set [] = []"
| "Array_from_Set (x # xs) = x # Array_from_Set (filter (\<lambda>y. fst y \<noteq> fst x) xs)"

definition getDeps :: "computedFn \<Rightarrow> string list" where
  "getDeps fn =
     (let matches = matchAll exec_reg 0 (toString fn);
          matches2 = matchAll exec_reg2 0 (toString fn)
      in map (\<lambda>m. snd (snd m)) (Array_from_Set (alloc (matches @ matches2))))"

definition intersection :: "'a list \<Rightarrow> 'a list \<Rightarrow> 'a list" where
  "intersection aArray bArray = filter (\<lambda>elem. elem \<in> set aArray) bArray"

section \<open>The store\<close>

text \<open>
  What a write cycle can change: the state held by the underlying store (what
  \<open>_api.getState()\<close> returns) and the console. The underlying store, its hook and the
  console are outside the repository; they are modelled by their documented behaviour.
\<close>

datatype console_call = Group string | Log string | LogObj string obj | GroupEnd

record world =
  state :: obj
  console :: "console_call list"

text \<open>
  A call either returns or throws, and a throw keeps the effects made before it. A call
  that does not come back at all (a watcher writing the property it watches, for one) has
  no outcome: \<open>None\<close>.
\<close>

datatype outcome = Normal world | Threw jsval world

text \<open>The first argument of a write: an object, or a function of the current state.\<close>

datatype partialState = PlainObj obj | Fn "obj \<Rightarrow> obj"

type_synonym SetState = "partialState \<Rightarrow> obj option \<Rightarrow> world \<Rightarrow> outcome option"

text \<open>
  A watcher is called as \<open>fn.apply({ set, get, api }, [newValue, oldValue])\<close>: it is given
  the write function of the context, the two values, and (through \<open>get\<close>) the world.
\<close>

type_synonym watcher = "SetState \<Rightarrow> jsval \<Rightarrow> jsval \<Rightarrow> world \<Rightarrow> outcome option"

definition LogLevel_None :: string where "LogLevel_None = ''none''"
definition LogLevel_Diff :: string where "LogLevel_Diff = ''diff''"
definition LogLevel_All :: string where "LogLevel_All = ''all''"

record Settings =
  name :: string
  logLevel :: string

text \<open>The variables \<open>createStore\<close> closes over.\<close>

record closure =
  computed :: "(string \<times> computedFn) list"
  computedPropDependencies :: "(string \<times> string list) list"
  watchers :: "(string \<times> watcher) list"
  settings :: Settings

text \<open>
  The write function of the underlying store, called with an object: the object is merged
  into the state (\<open>Object.assign({}, state, nextState)\<close>).
\<close>

definition originalSetState :: "obj \<Rightarrow> world \<Rightarrow> world" where
  "originalSetState nextState w = w\<lparr>state := spread (state w) nextState\<rparr>"

definition console_do :: "bool \<Rightarrow> console_call \<Rightarrow> world \<Rightarrow> world" where
  "console_do cond c w = (if cond then w\<lparr>console := console w @ [c]\<rparr> else w)"

text \<open>Calling \<open>apply\<close> on the \<open>undefined\<close> of a missing entry throws this.\<close>

definition TypeError :: jsval where
  "TypeError = Str ''TypeError''"

subsection \<open>\<open>setMiddleware\<close>\<close>

text \<open>\<open>(!setSettings?.excludeInLogs ?? true) && _settings.logLevel !== LogLevel.None\<close>\<close>

definition logOperations :: "closure \<Rightarrow> obj option \<Rightarrow> bool" where
  "logOperations cl setSettings =
     ((\<not> truthy (case setSettings of None \<Rightarrow> Undefined | Some s \<Rightarrow> getprop s ''excludeInLogs''))
      \<and> logLevel (settings cl) \<noteq> LogLevel_None)"

definition resolve :: "partialState \<Rightarrow> obj \<Rightarrow> obj" where
  "resolve partialState currentState =
     (case partialState of Fn f \<Rightarrow> f currentState | PlainObj changes \<Rightarrow> changes)"

text \<open>
  The loop over \<open>Object.entries(_computedPropDependencies)\<close>, with \<open>updatedComputed\<close> as
  the accumulator.
\<close>

fun recompute ::
  "(string \<times> computedFn) list \<Rightarrow> obj \<Rightarrow> obj \<Rightarrow> (string \<times> string list) list \<Rightarrow> obj \<Rightarrow> jsval + obj" where
  "recompute fns currentState changes [] updatedComputed = Inr updatedComputed"
| "recompute fns currentState changes ((compPropName, compPropDeps) # rest) updatedComputed =
     (let needsRecompute = intersection (keys changes) compPropDeps
      in if length needsRecompute > 0 then
           (case map_of fns compPropName of
              None \<Rightarrow> Inl TypeError
            | Some fn \<Rightarrow>
                recompute fns currentState changes rest
                  (assign updatedComputed compPropName
                     (apply_this fn (spread (spread currentState changes) updatedComputed))))
         else recompute fns currentState changes rest updatedComputed)"

text \<open>The loop over \<open>Object.entries(_watchers)\<close>.\<close>

fun dispatch ::
  "SetState \<Rightarrow> bool \<Rightarrow> (string \<times> watcher) list \<Rightarrow> obj \<Rightarrow> obj \<Rightarrow> world \<Rightarrow> outcome option" where
  "dispatch setState_api lg [] newState currentState w = Some (Normal w)"
| "dispatch setState_api lg ((propName, fn) # rest) newState currentState w =
     (if propName \<in> set (keys newState) then
        (case fn setState_api (getprop newState propName) (getprop currentState propName)
                (console_do lg (Log (''Triggering watcher: '' @ propName)) w) of
           None \<Rightarrow> None
         | Some (Threw e w') \<Rightarrow> Some (Threw e w')
         | Some (Normal w') \<Rightarrow> dispatch setState_api lg rest newState currentState w')
      else dispatch setState_api lg rest newState currentState w)"

text \<open>
  The console calls of a write cycle: the opening ones, the one after the recomputation,
  and the closing ones, which an exception thrown by a watcher skips.
\<close>

definition log_start :: "closure \<Rightarrow> bool \<Rightarrow> obj \<Rightarrow> obj \<Rightarrow> world \<Rightarrow> world" where
  "log_start cl lg currentState changes w =
     (let group = name (settings cl) @ '' state changed'';
          w1 = console_do lg (Group group) w;
          w2 = console_do (lg \<and> logLevel (settings cl) = LogLevel_All)
                 (LogObj ''Previous State'' currentState) w1
      in console_do lg (LogObj ''Applying'' changes) w2)"

definition log_computed :: "bool \<Rightarrow> obj \<Rightarrow> world \<Rightarrow> world" where
  "log_computed lg updatedComputed w =
     (if length (keys updatedComputed) > 0
      then console_do lg (LogObj ''Updating computed values'' updatedComputed) w
      else w)"

definition log_end :: "closure \<Rightarrow> bool \<Rightarrow> world \<Rightarrow> world" where
  "log_end cl lg w =
     console_do lg GroupEnd
       (console_do (lg \<and> logLevel (settings cl) = LogLevel_All) (LogObj ''New State'' (state w)) w)"

definition finish :: "closure \<Rightarrow> bool \<Rightarrow> outcome option \<Rightarrow> outcome option" where
  "finish cl lg r =
     (case r of
        None \<Rightarrow> None
      | Some (Threw e w) \<Rightarrow> Some (Threw e w)
      | Some (Normal w) \<Rightarrow> Some (Normal (log_end cl lg w)))"

text \<open>
  \<open>setMiddleware\<close>. The first argument bounds how deep writes may nest (a watcher's
  \<open>this.set\<close> is \<open>_api.setState\<close>, which is \<open>setState\<close> below and calls \<open>setMiddleware\<close>
  again); when the bound is used up there is no outcome.
\<close>

primrec setMiddleware ::
  "nat \<Rightarrow> closure \<Rightarrow> partialState \<times> obj option \<Rightarrow> (obj \<Rightarrow> world \<Rightarrow> world) \<Rightarrow> world \<Rightarrow> outcome option" where
  "setMiddleware 0 cl args setFn w = None"
| "setMiddleware (Suc depth) cl args setFn w =
     (let partialState = fst args; setSettings = snd args;
          lg = logOperations cl setSettings;
          currentState = state w;
          changes = resolve partialState currentState;
          w3 = log_start cl lg currentState changes w
      in case recompute (computed cl) currentState changes (computedPropDependencies cl) [] of
           Inl e \<Rightarrow> Some (Threw e w3)
         | Inr updatedComputed \<Rightarrow>
            (let w4 = log_computed lg updatedComputed w3;
                 newState = spread changes updatedComputed;
                 w5 = setFn newState w4
             in finish cl lg
                  (dispatch (\<lambda>p s. setMiddleware depth cl (p, s) originalSetState) lg
                     (watchers cl) newState currentState w5)))"

definition setState :: "nat \<Rightarrow> closure \<Rightarrow> SetState" where
  "setState depth cl args setSettings = setMiddleware depth cl (args, setSettings) originalSetState"

subsection \<open>Middleware\<close>

text \<open>
  The underlying store's write function as the function \<open>api.setState(partial, replace)\<close>
  it is: the partial state is resolved against the current state and merged into it, or
  put in its place when a second argument is given (an object is truthy).
  \<open>originalSetState\<close> above is this function called with an object and nothing else.
\<close>

definition nativeSetState :: SetState where
  "nativeSetState partial replace w =
     (let nextState = resolve partial (state w)
      in Some (Normal (w\<lparr>state := (case replace of
                                       None \<Rightarrow> spread (state w) nextState
                                     | Some r \<Rightarrow> nextState)\<rparr>)))"

text \<open>
  The \<open>api\<close> object every state creator is called with. It is one shared object, and
  its \<open>setState\<close> changes during construction: while the middleware stages run it is
  the underlying store's own write function (\<open>setState_found\<close>); the innermost creator
  then assigns \<open>_api.setState = setState\<close>, which is what anyone reading \<open>api.setState\<close>
  afterwards finds (\<open>setState_installed\<close>).
\<close>

record StoreApi =
  setState_found :: SetState
  setState_installed :: SetState

text \<open>
  A state creator is called as \<open>config(set, get, api)\<close>: with a write function and the
  api (\<open>get\<close> reads the world, which every write function is given). \<open>flow\<close> is lodash's:
  the functions applied from left to right.
\<close>

type_synonym 'r StateCreator = "SetState \<Rightarrow> StoreApi \<Rightarrow> 'r"

definition attachMiddleWare ::
  "nat \<Rightarrow> closure \<Rightarrow> 'r StateCreator \<Rightarrow> (obj \<Rightarrow> world \<Rightarrow> world) \<Rightarrow> StoreApi \<Rightarrow> 'r" where
  "attachMiddleWare depth cl config =
     (\<lambda>setFn api. config (\<lambda>args setSettings. setMiddleware depth cl (args, setSettings) setFn) api)"

definition flow :: "('a \<Rightarrow> 'a) list \<Rightarrow> 'a \<Rightarrow> 'a" where
  "flow funcs = (\<lambda>x. fold (\<lambda>f acc. f acc) funcs x)"

definition middlewareFunctions ::
  "('r StateCreator \<Rightarrow> 'r StateCreator) list option \<Rightarrow> 'r StateCreator \<Rightarrow> 'r StateCreator" where
  "middlewareFunctions middleware store =
     (case middleware of Some ms \<Rightarrow> flow ms store | None \<Rightarrow> store)"

text \<open>
  A middleware stage in the shape the library's users write,
  \<open>config => (set, get, api) => config(wrap(set), get, api)\<close>, given by the write function
  it hands on; \<open>wrap\<close> may use the write function the stage was given and the api the
  stage was given, \<open>api.setState\<close> included.
\<close>

definition stage :: "(StoreApi \<Rightarrow> SetState \<Rightarrow> SetState) \<Rightarrow> 'r StateCreator \<Rightarrow> 'r StateCreator" where
  "stage wrap config = (\<lambda>setFn api. config (wrap api setFn) api)"

text \<open>The api of a store, as \<open>create\<close> hands it to the outermost creator.\<close>

definition storeApi :: "nat \<Rightarrow> closure \<Rightarrow> StoreApi" where
  "storeApi depth cl = \<lparr>setState_found = nativeSetState, setState_installed = setState depth cl\<rparr>"

subsection \<open>Construction\<close>

record IAddonsSettings =
  settings_name :: "string option"
  settings_logLevel :: "string option"

text \<open>
  The addons, each object given by its entries. A middleware stage is given by the write
  function it hands on (see \<open>stage\<close>).
\<close>

record IAddons =
  addons_computed :: "(string \<times> computedFn) list option"
  addons_watchers :: "(string \<times> watcher) list option"
  addons_middleware :: "(StoreApi \<Rightarrow> SetState \<Rightarrow> SetState) list option"
  addons_settings :: "IAddonsSettings option"

text \<open>
  The write function that reaches \<open>stateInitializer\<close> in a store built with the given
  addons: what the innermost creator is called with when \<open>create\<close> calls the outermost
  one with the store's own write function and its api.
\<close>

definition initializerSet :: "nat \<Rightarrow> closure \<Rightarrow> IAddons option \<Rightarrow> SetState" where
  "initializerSet depth cl addons =
     attachMiddleWare depth cl
       (middlewareFunctions
          (map_option (map stage) (case addons of None \<Rightarrow> None | Some a \<Rightarrow> addons_middleware a))
          (\<lambda>setFn api. setFn))
       originalSetState (storeApi depth cl)"

text \<open>
  The loop of \<open>configComputed\<close>; \<open>st\<close> is \<open>_api.getState()\<close>, which no iteration changes.
  \<open>{...computedToAdd, [key]: v}\<close> is a copy of \<open>computedToAdd\<close> with \<open>key\<close> set.
\<close>

fun configComputed_loop ::
  "obj \<Rightarrow> (string \<times> computedFn) list \<Rightarrow> closure \<Rightarrow> obj \<Rightarrow> closure \<times> obj" where
  "configComputed_loop st [] cl computedToAdd = (cl, computedToAdd)"
| "configComputed_loop st ((key, val) # rest) cl computedToAdd =
     (let deps = getDeps val;
          cl' = (if length deps > 0
                 then cl\<lparr>computedPropDependencies := assign (computedPropDependencies cl) key deps,
                         computed := assign (computed cl) key val\<rparr>
                 else cl)
      in configComputed_loop st rest cl'
           (assign computedToAdd key (apply_this val (spread st computedToAdd))))"

definition configComputed ::
  "nat \<Rightarrow> closure \<Rightarrow> (string \<times> computedFn) list \<Rightarrow> world \<Rightarrow> closure \<times> outcome option" where
  "configComputed depth cl computedMap w =
     (let r = configComputed_loop (state w) computedMap cl []; cl' = fst r; computedToAdd = snd r
      in (cl', if length (keys computedToAdd) > 0
               then setState depth cl' (PlainObj computedToAdd) None w
               else Some (Normal w)))"

definition configWatchers :: "closure \<Rightarrow> (string \<times> watcher) list \<Rightarrow> closure" where
  "configWatchers cl ws = cl\<lparr>watchers := fold (\<lambda>(propName, fn) acc. assign acc propName fn) ws (watchers cl)\<rparr>"

text \<open>
  \<open>createStore\<close>, from the object \<open>stateInitializer\<close> returns: the closure variables once
  construction is over, and the outcome of construction (the initial state with the
  computed values written into it).
\<close>

definition createStore :: "nat \<Rightarrow> obj \<Rightarrow> IAddons option \<Rightarrow> closure \<times> outcome option" where
  "createStore depth initialState addons =
     (let st = (case addons of None \<Rightarrow> None | Some a \<Rightarrow> addons_settings a);
          cl0 = \<lparr>computed = [], computedPropDependencies = [], watchers = [],
                 settings = \<lparr>name = (case (case st of None \<Rightarrow> None | Some s \<Rightarrow> settings_name s) of
                                        None \<Rightarrow> ''MyStore'' | Some n \<Rightarrow> n),
                              logLevel = (case (case st of None \<Rightarrow> None | Some s \<Rightarrow> settings_logLevel s) of
                                        None \<Rightarrow> LogLevel_None | Some l \<Rightarrow> l)\<rparr>\<rparr>;
          w0 = \<lparr>state = initialState, console = []\<rparr>;
          r = configComputed depth cl0
                (case (case addons of None \<Rightarrow> None | Some a \<Rightarrow> addons_computed a) of
                   None \<Rightarrow> [] | Some c \<Rightarrow> c) w0
      in (configWatchers (fst r)
            (case (case addons of None \<Rightarrow> None | Some a \<Rightarrow> addons_watchers a) of
               None \<Rightarrow> [] | Some ws \<Rightarrow> ws),
          snd r))"

subsection \<open>The accessor: \<open>stateHook\<close>\<close>

text \<open>
  \<open>String.prototype.split\<close> with a one-character separator, and \<open>trim\<close>. A \<open>char\<close>
  stands for a code unit below 256, so the white space is the tab to the carriage return,
  the space and the no-break space.
\<close>

fun split :: "char \<Rightarrow> string \<Rightarrow> string list" where
  "split sep [] = [[]]"
| "split sep (c # cs) =
     (if c = sep then [] # split sep cs
      else (case split sep cs of [] \<Rightarrow> [[c]] | p # ps \<Rightarrow> (c # p) # ps))"

definition white_space :: "char \<Rightarrow> bool" where
  "white_space c = (let n = (of_char c :: nat) in (9 \<le> n \<and> n \<le> 13) \<or> n = 32 \<or> n = 160)"

definition trim :: "string \<Rightarrow> string" where
  "trim s = rev (dropWhile white_space (rev (dropWhile white_space s)))"

text \<open>
  What a read returns: the whole state (no selector), one value, the array of a batch
  read, or the result of a selector function. \<open>shallow\<close> is the library's comparison,
  on two arrays: the same length and \<open>Object.is\<close> at every index.
\<close>

datatype 'u selected = Whole obj | Single jsval | Batch "jsval list" | Derived 'u

datatype 'u selector = NoSelector | PropName string | SelectorFn "obj \<Rightarrow> 'u"

datatype 'u equalityFn = shallow | EqualityFn "'u selected \<Rightarrow> 'u selected \<Rightarrow> bool"

fun shallow_arrays :: "jsval list \<Rightarrow> jsval list \<Rightarrow> bool" where
  "shallow_arrays objA objB = (length objA = length objB \<and> list_all2 (=) objA objB)"

text \<open>
  \<open>stateHook\<close>: the selector and the equality function it calls \<open>hook\<close> with. The hook
  returns the selector applied to the current state, and tells its subscriber of a change
  when the equality function says the old and the new selection differ.
\<close>

definition stateHook ::
  "'u selector \<Rightarrow> 'u equalityFn option \<Rightarrow> (obj \<Rightarrow> 'u selected) \<times> 'u equalityFn option" where
  "stateHook sel eqFn =
     (case sel of
        NoSelector \<Rightarrow> (\<lambda>st. Whole st, eqFn)
      | PropName s \<Rightarrow>
          (if CHR '','' \<in> set s then
             (let props = map trim (split CHR '','' s)
              in (\<lambda>st. Batch (map (\<lambda>p. getprop st p) props), Some shallow))
           else (\<lambda>st. Single (getprop st s), eqFn))
      | SelectorFn f \<Rightarrow> (\<lambda>st. Derived (f st), eqFn))"

definition hook_read :: "(obj \<Rightarrow> 'u selected) \<times> 'u equalityFn option \<Rightarrow> obj \<Rightarrow> 'u selected" where
  "hook_read h st = fst h st"

fun hook_equal :: "'u equalityFn option \<Rightarrow> 'u selected \<Rightarrow> 'u selected \<Rightarrow> bool option" where
  "hook_equal (Some shallow) (Batch a) (Batch b) = Some (shallow_arrays a b)"
| "hook_equal (Some (EqualityFn f)) a b = Some (f a b)"
| "hook_equal eqFn a b = None"

section \<open>Example functions, stages and stores\<close>

text \<open>A derivation that mentions the same property twice.\<close>

definition twice_a :: computedFn where
  "twice_a = \<lparr>toString = ''function () { return this.a + this.a; }'',
             apply_this = (\<lambda>this. case getprop this ''a'' of Num n \<Rightarrow> Num (n + n) | _ \<Rightarrow> Undefined)\<rparr>"

text \<open>
  Derivations whose text holds \<open>this.x\<close> in a string literal, in a comment and as the
  target of an assignment, and one that reads \<open>y\<close> through a destructuring.
\<close>

definition in_string :: computedFn where
  "in_string = \<lparr>toString = ''function () { return 'this.x'; }'',
               apply_this = (\<lambda>this. Str ''this.x'')\<rparr>"

definition in_comment :: computedFn where
  "in_comment = \<lparr>toString = ''function () { /* this.x */ return 1; }'',
                apply_this = (\<lambda>this. Num 1)\<rparr>"

definition assigned :: computedFn where
  "assigned = \<lparr>toString = ''function () { this.x = 1; return 2; }'',
              apply_this = (\<lambda>this. Num 2)\<rparr>"

definition destructured :: computedFn where
  "destructured = \<lparr>toString = ''function () { const { y } = this; return y; }'',
                  apply_this = (\<lambda>this. getprop this ''y'')\<rparr>"

text \<open>A middleware stage that logs its label and hands the write on.\<close>

definition tap :: "string \<Rightarrow> SetState \<Rightarrow> SetState" where
  "tap label next = (\<lambda>args setSettings w. next args setSettings (console_do True (Log label) w))"

text \<open>
  A store with four computed entries over the property \<open>count\<close>: \<open>doubleCount\<close> reads
  \<open>count\<close>, \<open>label\<close> reads nothing, \<open>total\<close> reads \<open>count\<close> and \<open>doubleCount\<close>, and
  \<open>quadruple\<close> reads \<open>doubleCount\<close> only.
\<close>

definition doubleCount :: computedFn where
  "doubleCount = \<lparr>toString = ''function () { return this.count * 2; }'',
                 apply_this = (\<lambda>this. case getprop this ''count'' of Num n \<Rightarrow> Num (n * 2) | _ \<Rightarrow> Undefined)\<rparr>"

definition label :: computedFn where
  "label = \<lparr>toString = ''function () { return 'counter'; }'',
           apply_this = (\<lambda>this. Str ''counter'')\<rparr>"

definition totalCount :: computedFn where
  "totalCount = \<lparr>toString = ''function () { return this.count + this.doubleCount; }'',
           apply_this = (\<lambda>this. case (getprop this ''count'', getprop this ''doubleCount'') of
                                   (Num a, Num b) \<Rightarrow> Num (a + b) | _ \<Rightarrow> Undefined)\<rparr>"

definition quadruple :: computedFn where
  "quadruple = \<lparr>toString = ''function () { return this.doubleCount * 2; }'',
               apply_this = (\<lambda>this. case getprop this ''doubleCount'' of Num n \<Rightarrow> Num (n * 2) | _ \<Rightarrow> Undefined)\<rparr>"

definition example_computed :: "(string \<times> computedFn) list" where
  "example_computed =
     [(''doubleCount'', doubleCount), (''label'', label), (''total'', totalCount), (''quadruple'', quadruple)]"

definition example_addons :: IAddons where
  "example_addons = \<lparr>addons_computed = Some example_computed, addons_watchers = None,
                     addons_middleware = None, addons_settings = None\<rparr>"

definition example_world :: world where
  "example_world =
     \<lparr>state = [(''count'', Num 1), (''doubleCount'', Num 2), (''label'', Str ''counter''),
               (''total'', Num 3), (''quadruple'', Num 4)],
      console = []\<rparr>"

text \<open>
  Watchers: one that logs the two values it is called with, one that throws, and one
  that writes the new value to another property through \<open>this.set\<close>.
\<close>

definition record_call :: "string \<Rightarrow> watcher" where
  "record_call lbl =
     (\<lambda>set_api newValue oldValue w.
        Some (Normal (w\<lparr>console := console w @ [LogObj lbl [(''newValue'', newValue), (''oldValue'', oldValue)]]\<rparr>)))"

definition thrower :: watcher where
  "thrower = (\<lambda>set_api newValue oldValue w. Some (Threw (Str ''boom'') w))"


definition watch_addons :: IAddons where
  "watch_addons = \<lparr>addons_computed = None,
                   addons_watchers = Some [(''a'', record_call ''a''), (''b'', thrower), (''c'', record_call ''c'')],
                   addons_middleware = None, addons_settings = None\<rparr>"

definition count_addons :: IAddons where
  "count_addons = \<lparr>addons_computed = None,
                   addons_watchers = Some [(''count'', record_call ''count'')],
                   addons_middleware = None, addons_settings = None\<rparr>"

definition empty_world :: world where
  "empty_world = \<lparr>state = [], console = []\<rparr>"

definition fail_first_addons :: IAddons where
  "fail_first_addons = \<lparr>addons_computed = None,
                        addons_watchers = Some [(''a'', thrower), (''b'', record_call ''b'')],
                        addons_middleware = None, addons_settings = None\<rparr>"

text \<open>A store that logs at level \<open>diff\<close>, and none of the other addons.\<close>

definition logged_addons :: IAddons where
  "logged_addons = \<lparr>addons_computed = None, addons_watchers = None, addons_middleware = None,
                    addons_settings = Some \<lparr>settings_name = None, settings_logLevel = Some LogLevel_Diff\<rparr>\<rparr>"




section \<open>Objects\<close>

lemma map_of_assign: "map_of (assign ob k v) = (map_of ob)(k \<mapsto> v)"
  by (simp add: assign_def update_conv')

lemma keys_assign: "set (keys (assign ob k v)) = insert k (set (keys ob))"
  by (simp add: assign_def keys_def dom_update)

lemma distinct_assign: "distinct (keys ob) \<Longrightarrow> distinct (keys (assign ob k v))"
  by (simp add: assign_def keys_def distinct_update)

lemma assign_fresh: "k \<notin> set (keys ob) \<Longrightarrow> assign ob k v = ob @ [(k, v)]"
  by (induction ob) (auto simp: assign_def keys_def)

lemma getprop_assign: "getprop (assign ob k v) k' = (if k' = k then v else getprop ob k')"
  by (simp add: getprop_def map_of_assign)

lemma map_of_spread: "map_of (spread a b) = map_of a ++ map_of (rev b)"
proof -
  have "map_of (fold (\<lambda>(k, v) acc. assign acc k v) b a) = map_of a ++ map_of (rev b)" for a
  proof (induction b arbitrary: a)
    case Nil
    show ?case by simp
  next
    case (Cons e b)
    obtain k v where e: "e = (k, v)" by (cases e)
    have "fold (\<lambda>(k, v) acc. assign acc k v) (e # b) a
            = fold (\<lambda>(k, v) acc. assign acc k v) b (assign a k v)"
      by (simp add: e)
    then have "map_of (fold (\<lambda>(k, v) acc. assign acc k v) (e # b) a)
            = map_of (assign a k v) ++ map_of (rev b)"
      by (simp only: Cons.IH)
    also have "\<dots> = map_of a ++ map_of (rev (e # b))"
      by (rule ext) (simp add: e map_of_assign map_add_def split: option.splits)
    finally show ?case .
  qed
  then show ?thesis by (simp add: spread_def)
qed

lemma keys_spread: "set (keys (spread a b)) = set (keys a) \<union> set (keys b)"
proof -
  have "set (keys (fold (\<lambda>(k, v) acc. assign acc k v) b a)) = set (keys a) \<union> set (keys b)" for a
  proof (induction b arbitrary: a)
    case Nil
    show ?case by (simp add: keys_def)
  next
    case (Cons e b)
    obtain k v where e: "e = (k, v)" by (cases e)
    have "set (keys ((k, v) # b)) = insert k (set (keys b))"
      by (simp add: keys_def)
    then show ?case
      by (simp add: e Cons.IH keys_assign)
  qed
  then show ?thesis by (simp add: spread_def)
qed

lemma map_of_rev_distinct: "distinct (map fst b) \<Longrightarrow> map_of (rev b) = map_of b"
proof -
  assume d: "distinct (map fst b)"
  then have "distinct (map fst (rev b))"
    by (simp flip: rev_map)
  from map_of_inject_set [OF this d] show ?thesis
    by simp
qed

lemma getprop_spread:
  "distinct (keys b) \<Longrightarrow> getprop (spread a b) k = (if k \<in> set (keys b) then getprop b k else getprop a k)"
proof -
  assume d: "distinct (keys b)"
  then have m: "map_of (spread a b) = map_of a ++ map_of b"
    by (simp add: map_of_spread map_of_rev_distinct keys_def)
  have "k \<in> set (keys b) \<longleftrightarrow> map_of b k \<noteq> None"
    by (simp add: keys_def map_of_eq_None_iff)
  then show ?thesis
    by (auto simp: getprop_def m map_add_def split: option.splits)
qed

section \<open>Dependency extraction\<close>

lemma Array_from_Set_distinct: "distinct (map fst xs) \<Longrightarrow> Array_from_Set xs = xs"
proof (induction xs)
  case Nil
  then show ?case by simp
next
  case (Cons x xs)
  from Cons.prems have "\<forall>y\<in>set xs. fst y \<noteq> fst x"
    by (metis distinct.simps(2) image_eqI list.simps(9) set_map)
  then have "filter (\<lambda>y. fst y \<noteq> fst x) xs = xs"
    by simp
  with Cons show ?case by simp
qed

lemma Array_from_Set_alloc: "Array_from_Set (alloc xs) = alloc xs"
  by (rule Array_from_Set_distinct) (simp add: alloc_def)

text \<open>
  No two match arrays are the same object, so the \<open>Set\<close> keeps every one of them:
  \<open>getDeps\<close> returns the names of all matches of the first expression, then those of the
  second.
\<close>

lemma getDeps_all_matches:
  "getDeps fn = map snd (matchAll exec_reg 0 (toString fn)) @ map snd (matchAll exec_reg2 0 (toString fn))"
proof -
  have "map (\<lambda>m. snd (snd m)) (alloc xs) = map snd xs" for xs :: "(nat \<times> string) list"
  proof -
    have "map (\<lambda>m. snd (snd m)) (alloc xs) = map snd (map snd (alloc xs))"
      by simp
    also have "map snd (alloc xs) = xs"
      by (simp add: alloc_def)
    finally show ?thesis .
  qed
  then show ?thesis
    by (simp add: getDeps_def Array_from_Set_alloc Let_def flip: map_append)
qed

text \<open>
  C5. The claim that \<open>getDeps\<close> returns each name once fails on a function that mentions
  a property twice: \<open>function () { return this.a + this.a; }\<close> yields the name \<open>a\<close> twice.
\<close>

theorem getDeps_keeps_repeated_name: "getDeps twice_a = [''a'', ''a'']"
  by (simp add: getDeps_all_matches twice_a_def exec_reg_def exec_reg2_def word_char_def)

text \<open>
  C10. Extraction goes by the text alone. A function that has \<open>this.x\<close> only in a string
  literal, only in a comment, or only as the target of an assignment returns the same
  value whatever the state holds, and \<open>x\<close> is among its dependencies all the same; a
  function that reads \<open>y\<close> through a destructuring depends on \<open>y\<close> and has no dependency
  extracted.
\<close>

theorem getDeps_textual:
  "''x'' \<in> set (getDeps in_string) \<and> (\<forall>this this'. apply_this in_string this = apply_this in_string this')
   \<and> ''x'' \<in> set (getDeps in_comment) \<and> (\<forall>this this'. apply_this in_comment this = apply_this in_comment this')
   \<and> ''x'' \<in> set (getDeps assigned) \<and> (\<forall>this this'. apply_this assigned this = apply_this assigned this')
   \<and> getDeps destructured = []
   \<and> apply_this destructured [(''y'', Num 1)] \<noteq> apply_this destructured [(''y'', Num 2)]"
proof -
  have 1: "getDeps in_string = [''x'']"
    by (simp add: getDeps_all_matches in_string_def exec_reg_def exec_reg2_def word_char_def)
  have 2: "getDeps in_comment = [''x'']"
    by (simp add: getDeps_all_matches in_comment_def exec_reg_def exec_reg2_def word_char_def)
  have 3: "getDeps assigned = [''x'']"
    by (simp add: getDeps_all_matches assigned_def exec_reg_def exec_reg2_def word_char_def)
  have 4: "getDeps destructured = []"
    by (simp add: getDeps_all_matches destructured_def exec_reg_def exec_reg2_def word_char_def)
  have 5: "apply_this destructured [(''y'', Num 1)] \<noteq> apply_this destructured [(''y'', Num 2)]"
    by (simp add: destructured_def getprop_def)
  show ?thesis
    using 1 2 3 4 5 by (simp add: in_string_def in_comment_def assigned_def)
qed

section \<open>Middleware composition\<close>

lemma flow_stages:
  "flow (map stage Ms) init = (\<lambda>setFn api. init (foldr (\<lambda>M acc. M api acc) Ms setFn) api)"
proof -
  have "fold (\<lambda>f acc. f acc) (map stage Ms) c = (\<lambda>setFn api. c (foldr (\<lambda>M acc. M api acc) Ms setFn) api)"
    for c :: "'a StateCreator"
  proof (induction Ms arbitrary: c)
    case Nil
    show ?case by simp
  next
    case (Cons M Ms)
    have step: "stage M c = (\<lambda>setFn api. c (M api setFn) api)"
      by (simp add: stage_def)
    have "fold (\<lambda>f acc. f acc) (map stage (M # Ms)) c = fold (\<lambda>f acc. f acc) (map stage Ms) (stage M c)"
      by simp
    also have "\<dots> = (\<lambda>setFn api. stage M c (foldr (\<lambda>M acc. M api acc) Ms setFn) api)"
      by (rule Cons.IH)
    also have "\<dots> = (\<lambda>setFn api. c (M api (foldr (\<lambda>M acc. M api acc) Ms setFn)) api)"
      by (simp only: step)
    finally show ?case by simp
  qed
  then show ?thesis by (simp add: flow_def)
qed

text \<open>
  C4. With the middleware list \<open>[M1, M2]\<close> the write function that reaches the state
  initializer is \<open>M1 (M2 core)\<close>, where \<open>core\<close> is the call of \<open>setMiddleware\<close>: the first
  stage listed is the outermost. A write made through it is seen by \<open>M1\<close>, then by \<open>M2\<close>,
  then by \<open>setMiddleware\<close>: two stages that log their labels leave \<open>M1\<close>, \<open>M2\<close> on the
  console, in this order, before the write cycle starts.
\<close>

theorem middleware_first_listed_outermost:
  "attachMiddleWare depth cl (middlewareFunctions (Some [stage M1, stage M2]) init) setFn api
     = init (M1 api (M2 api (\<lambda>args setSettings. setMiddleware depth cl (args, setSettings) setFn))) api
   \<and> initializerSet depth cl (Some (a\<lparr>addons_middleware := Some [M1, M2]\<rparr>))
     = M1 (storeApi depth cl)
         (M2 (storeApi depth cl) (\<lambda>args setSettings. setMiddleware depth cl (args, setSettings) originalSetState))
   \<and> initializerSet depth cl (Some (a\<lparr>addons_middleware := Some [\<lambda>api. tap ''M1'', \<lambda>api. tap ''M2'']\<rparr>))
         args setSettings w
     = setMiddleware depth cl (args, setSettings) originalSetState
         (w\<lparr>console := console w @ [Log ''M1'', Log ''M2'']\<rparr>)"
proof -
  have 1: "flow [stage M1, stage M2] init = (\<lambda>setFn api. init (M1 api (M2 api setFn)) api)"
    using flow_stages [of "[M1, M2]" init] by simp
  have 2: "flow [stage M1, stage M2] (\<lambda>setFn api. setFn) = (\<lambda>setFn api. M1 api (M2 api setFn))"
    for M1 M2 :: "StoreApi \<Rightarrow> SetState \<Rightarrow> SetState"
    using flow_stages [of "[M1, M2]" "\<lambda>setFn api. setFn"] by simp
  show ?thesis
    by (simp add: 1 2 attachMiddleWare_def middlewareFunctions_def initializerSet_def tap_def console_do_def)
qed

section \<open>Reads\<close>

text \<open>
  C9. A string selector with a comma in it is split at the commas and each part trimmed;
  the read returns the array of the values of those properties, in the order of the
  names, and is compared with \<open>shallow\<close>. Two states that agree on the named properties
  give arrays that \<open>shallow\<close> takes for equal.
\<close>

theorem batch_read:
  assumes "CHR '','' \<in> set s"
  shows "hook_read (stateHook (PropName s) eqFn) st
           = Batch (map (\<lambda>part. getprop st (trim part)) (split CHR '','' s))
         \<and> snd (stateHook (PropName s) eqFn) = Some shallow
         \<and> ((\<forall>part \<in> set (split CHR '','' s). getprop st' (trim part) = getprop st (trim part))
              \<longrightarrow> hook_equal (snd (stateHook (PropName s) eqFn))
                     (hook_read (stateHook (PropName s) eqFn) st)
                     (hook_read (stateHook (PropName s) eqFn) st') = Some True)"
proof -
  have rd: "hook_read (stateHook (PropName s) eqFn) st
              = Batch (map (\<lambda>part. getprop st (trim part)) (split CHR '','' s))" for st
    using assms by (simp add: stateHook_def hook_read_def Let_def comp_def)
  have eq: "snd (stateHook (PropName s) eqFn) = Some shallow"
    using assms by (simp add: stateHook_def Let_def)
  have "hook_equal (Some shallow)
          (Batch (map (\<lambda>part. getprop st (trim part)) (split CHR '','' s)))
          (Batch (map (\<lambda>part. getprop st' (trim part)) (split CHR '','' s))) = Some True"
    if "\<forall>part \<in> set (split CHR '','' s). getprop st' (trim part) = getprop st (trim part)"
    using that by (simp add: list.rel_eq)
  then show ?thesis
    by (simp only: rd eq) simp
qed

theorem batch_read_witness:
  "CHR '','' \<in> set ''a, b''
   \<and> hook_read (stateHook (PropName ''a, b'') (None :: unit equalityFn option))
        [(''a'', Num 1), (''b'', Str ''x''), (''c'', Null)] = Batch [Num 1, Str ''x'']
   \<and> hook_equal (snd (stateHook (PropName ''a, b'') (None :: unit equalityFn option)))
        (hook_read (stateHook (PropName ''a, b'') None) [(''a'', Num 1), (''b'', Str ''x''), (''c'', Null)])
        (hook_read (stateHook (PropName ''a, b'') None) [(''c'', Num 7), (''b'', Str ''x''), (''a'', Num 1)])
      = Some True"
proof -
  have h: "CHR '','' \<in> set ''a, b''"
    by simp
  have sp: "split CHR '','' ''a, b'' = [''a'', '' b'']"
    by simp
  have tr: "trim ''a'' = ''a''" "trim '' b'' = ''b''"
    by (simp_all add: trim_def white_space_def)
  have agree: "\<forall>part \<in> set (split CHR '','' ''a, b'').
      getprop [(''c'', Num 7), (''b'', Str ''x''), (''a'', Num 1)] (trim part)
        = getprop [(''a'', Num 1), (''b'', Str ''x''), (''c'', Null)] (trim part)"
    by (simp add: sp tr getprop_def)
  have vals: "map (\<lambda>part. getprop [(''a'', Num 1), (''b'', Str ''x''), (''c'', Null)] (trim part))
                (split CHR '','' ''a, b'') = [Num 1, Str ''x'']"
    by (simp add: sp tr getprop_def)
  note t = batch_read [OF h, of "None :: unit equalityFn option"
        "[(''a'', Num 1), (''b'', Str ''x''), (''c'', Null)]"
        "[(''c'', Num 7), (''b'', Str ''x''), (''a'', Num 1)]"]
  from t vals have r1: "hook_read (stateHook (PropName ''a, b'') (None :: unit equalityFn option))
        [(''a'', Num 1), (''b'', Str ''x''), (''c'', Null)] = Batch [Num 1, Str ''x'']"
    by metis
  from t agree have r2: "hook_equal (snd (stateHook (PropName ''a, b'') (None :: unit equalityFn option)))
        (hook_read (stateHook (PropName ''a, b'') None) [(''a'', Num 1), (''b'', Str ''x''), (''c'', Null)])
        (hook_read (stateHook (PropName ''a, b'') None) [(''c'', Num 7), (''b'', Str ''x''), (''a'', Num 1)])
      = Some True"
    by blast
  from h r1 r2 show ?thesis
    by blast
qed

section \<open>Registration\<close>

lemma fold_assign_fresh:
  "distinct (keys es) \<Longrightarrow> set (keys es) \<inter> set (keys acc) = {}
   \<Longrightarrow> fold (\<lambda>(k, v) acc. assign acc k v) es acc = acc @ es"
proof (induction es arbitrary: acc)
  case Nil
  show ?case by simp
next
  case (Cons e es)
  obtain k v where e: "e = (k, v)" by (cases e)
  from Cons.prems have fresh: "k \<notin> set (keys acc)" and d: "distinct (keys es)"
    and disj: "set (keys es) \<inter> set (keys (acc @ [(k, v)])) = {}"
    by (auto simp: e keys_def)
  show ?case
    using Cons.IH [OF d disj] by (simp add: e assign_fresh [OF fresh])
qed

lemma configComputed_loop_closure:
  "distinct (keys cm) \<Longrightarrow> set (keys cm) \<inter> set (keys (computedPropDependencies cl)) = {}
   \<Longrightarrow> set (keys cm) \<inter> set (keys (computed cl)) = {}
   \<Longrightarrow> fst (configComputed_loop st cm cl cta)
       = cl\<lparr>computedPropDependencies :=
               computedPropDependencies cl @ map (\<lambda>(k, f). (k, getDeps f)) (filter (\<lambda>(k, f). getDeps f \<noteq> []) cm),
             computed := computed cl @ filter (\<lambda>(k, f). getDeps f \<noteq> []) cm\<rparr>"
proof (induction cm arbitrary: cl cta)
  case Nil
  show ?case by simp
next
  case (Cons e cm)
  obtain k f where e: "e = (k, f)" by (cases e)
  from Cons.prems have k1: "k \<notin> set (keys (computedPropDependencies cl))"
    and k2: "k \<notin> set (keys (computed cl))" and d: "distinct (keys cm)" and kcm: "k \<notin> set (keys cm)"
    and d1: "set (keys cm) \<inter> set (keys (computedPropDependencies cl)) = {}"
    and d2: "set (keys cm) \<inter> set (keys (computed cl)) = {}"
    by (auto simp: e keys_def)
  show ?case
  proof (cases "getDeps f = []")
    case True
    then show ?thesis
      using Cons.IH [OF d d1 d2] by (simp add: e)
  next
    case False
    let ?cl = "cl\<lparr>computedPropDependencies := computedPropDependencies cl @ [(k, getDeps f)],
                   computed := computed cl @ [(k, f)]\<rparr>"
    have a1: "set (keys cm) \<inter> set (keys (computedPropDependencies ?cl)) = {}"
      using d1 kcm by (auto simp: keys_def)
    have a2: "set (keys cm) \<inter> set (keys (computed ?cl)) = {}"
      using d2 kcm by (auto simp: keys_def)
    show ?thesis
      using False Cons.IH [OF d a1 a2]
      by (simp add: e assign_fresh [OF k1] assign_fresh [OF k2])
  qed
qed

section \<open>Recomputation\<close>

lemma recompute_append:
  "recompute fns cur ch (r1 @ r2) uc
     = (case recompute fns cur ch r1 uc of Inl e \<Rightarrow> Inl e | Inr u1 \<Rightarrow> recompute fns cur ch r2 u1)"
proof (induction r1 arbitrary: uc)
  case Nil
  show ?case by simp
next
  case (Cons e r1)
  obtain k d where e: "e = (k, d)" by (cases e)
  show ?case
    by (simp add: e Cons.IH Let_def split: option.splits)
qed

lemma recompute_extends:
  "distinct (keys reg) \<Longrightarrow> set (keys reg) \<inter> set (keys uc) = {}
   \<Longrightarrow> \<forall>k\<in>set (keys reg). map_of fns k \<noteq> None
   \<Longrightarrow> \<exists>ext. recompute fns cur ch reg uc = Inr (uc @ ext)
         \<and> keys ext = map fst (filter (\<lambda>(k, d). intersection (keys ch) d \<noteq> []) reg)"
proof (induction reg arbitrary: uc)
  case Nil
  show ?case by (simp add: keys_def)
next
  case (Cons e reg)
  obtain k d where e: "e = (k, d)" by (cases e)
  from Cons.prems have fresh: "k \<notin> set (keys uc)" and dist: "distinct (keys reg)"
    and kreg: "k \<notin> set (keys reg)" and disj: "set (keys reg) \<inter> set (keys uc) = {}"
    and fns: "\<forall>k\<in>set (keys reg). map_of fns k \<noteq> None"
    by (auto simp: e keys_def)
  show ?case
  proof (cases "intersection (keys ch) d = []")
    case True
    with Cons.IH [OF dist disj fns] show ?thesis
      by (simp add: e)
  next
    case False
    from Cons.prems(3) obtain f where f: "map_of fns k = Some f"
      by (auto simp: e keys_def)
    let ?v = "apply_this f (spread (spread cur ch) uc)"
    have disj': "set (keys reg) \<inter> set (keys (uc @ [(k, ?v)])) = {}"
      using disj kreg by (auto simp: keys_def)
    from Cons.IH [OF dist disj' fns] obtain ext where
      ext: "recompute fns cur ch reg (uc @ [(k, ?v)]) = Inr ((uc @ [(k, ?v)]) @ ext)"
           "keys ext = map fst (filter (\<lambda>(k, d). intersection (keys ch) d \<noteq> []) reg)"
      by blast
    have "recompute fns cur ch (e # reg) uc = Inr (uc @ ((k, ?v) # ext))"
      using False f ext(1) by (simp add: e assign_fresh [OF fresh])
    moreover have "keys ((k, ?v) # ext) = map fst (filter (\<lambda>(k, d). intersection (keys ch) d \<noteq> []) (e # reg))"
      using False ext(2) by (simp add: e keys_def)
    ultimately show ?thesis by blast
  qed
qed

lemma recompute_split:
  assumes dist: "distinct (keys reg)"
    and fns: "\<forall>k\<in>set (keys reg). map_of fns k \<noteq> None"
    and reg: "reg = r1 @ (k, d) # r2"
    and hit: "intersection (keys ch) d \<noteq> []"
    and f: "map_of fns k = Some f"
  shows "\<exists>u1 ext. recompute fns cur ch r1 [] = Inr u1 \<and> k \<notin> set (keys u1)
           \<and> recompute fns cur ch reg [] = Inr (u1 @ (k, apply_this f (spread (spread cur ch) u1)) # ext)"
proof -
  from dist reg have d1: "distinct (keys r1)" and d2: "distinct (keys r2)"
    and k1: "k \<notin> set (keys r1)" and k2: "k \<notin> set (keys r2)"
    and r12: "set (keys r2) \<inter> set (keys r1) = {}"
    by (auto simp: keys_def)
  from fns reg have f1: "\<forall>k\<in>set (keys r1). map_of fns k \<noteq> None"
    and f2: "\<forall>k\<in>set (keys r2). map_of fns k \<noteq> None"
    by (auto simp: keys_def)
  from recompute_extends [OF d1 _ f1, of "[]" cur ch] obtain u1 where
    u1: "recompute fns cur ch r1 [] = Inr u1"
        "keys u1 = map fst (filter (\<lambda>(k, d). intersection (keys ch) d \<noteq> []) r1)"
    by (auto simp: keys_def)
  from u1(2) have sub: "set (keys u1) \<subseteq> set (keys r1)"
    by (auto simp: keys_def)
  with k1 have ku: "k \<notin> set (keys u1)" by blast
  let ?v = "apply_this f (spread (spread cur ch) u1)"
  have disj: "set (keys r2) \<inter> set (keys (u1 @ [(k, ?v)])) = {}"
    using sub r12 k2 by (auto simp: keys_def)
  from recompute_extends [OF d2 disj f2, of cur ch] obtain ext where
    ext: "recompute fns cur ch r2 (u1 @ [(k, ?v)]) = Inr ((u1 @ [(k, ?v)]) @ ext)"
    by blast
  have "recompute fns cur ch reg [] = Inr (u1 @ (k, ?v) # ext)"
    using hit f ext by (simp add: reg recompute_append u1(1) assign_fresh [OF ku])
  with u1(1) ku show ?thesis by blast
qed

lemma configComputed_loop_append:
  "configComputed_loop st (c1 @ c2) cl cta
     = configComputed_loop st c2 (fst (configComputed_loop st c1 cl cta)) (snd (configComputed_loop st c1 cl cta))"
proof (induction c1 arbitrary: cl cta)
  case Nil
  show ?case by simp
next
  case (Cons e c1)
  obtain k f where e: "e = (k, f)" by (cases e)
  show ?case
    by (simp add: e Cons.IH Let_def)
qed

lemma configComputed_loop_staged:
  "distinct (keys cm) \<Longrightarrow> set (keys cm) \<inter> set (keys cta) = {}
   \<Longrightarrow> \<exists>ext. snd (configComputed_loop st cm cl cta) = cta @ ext \<and> keys ext = keys cm"
proof (induction cm arbitrary: cl cta)
  case Nil
  show ?case by (simp add: keys_def)
next
  case (Cons e cm)
  obtain k f where e: "e = (k, f)" by (cases e)
  from Cons.prems have fresh: "k \<notin> set (keys cta)" and d: "distinct (keys cm)"
    and kcm: "k \<notin> set (keys cm)" and disj: "set (keys cm) \<inter> set (keys cta) = {}"
    by (auto simp: e keys_def)
  let ?v = "apply_this f (spread st cta)"
  have disj': "set (keys cm) \<inter> set (keys (cta @ [(k, ?v)])) = {}"
    using disj kcm by (auto simp: keys_def)
  let ?cl = "if 0 < length (getDeps f)
             then cl\<lparr>computedPropDependencies := assign (computedPropDependencies cl) k (getDeps f),
                     computed := assign (computed cl) k f\<rparr>
             else cl"
  from Cons.IH [OF d disj', of ?cl] obtain ext where
    ext: "snd (configComputed_loop st cm ?cl (cta @ [(k, ?v)])) = (cta @ [(k, ?v)]) @ ext"
         "keys ext = keys cm"
    by blast
  have "snd (configComputed_loop st (e # cm) cl cta) = cta @ ((k, ?v) # ext)"
    using ext(1) by (simp add: e assign_fresh [OF fresh] Let_def)
  moreover have "keys ((k, ?v) # ext) = keys (e # cm)"
    using ext(2) by (simp add: e keys_def)
  ultimately show ?case by blast
qed

lemma configComputed_loop_split:
  assumes dist: "distinct (keys cm)" and cm: "cm = c1 @ (k, f) # c2"
  shows "\<exists>s1 ext. keys s1 = keys c1 \<and> keys (s1 @ (k, apply_this f (spread st s1)) # ext) = keys cm
           \<and> snd (configComputed_loop st cm cl []) = s1 @ (k, apply_this f (spread st s1)) # ext"
proof -
  from dist cm have d1: "distinct (keys c1)" and d2: "distinct (keys c2)"
    and k1: "k \<notin> set (keys c1)" and k2: "k \<notin> set (keys c2)"
    and c12: "set (keys c2) \<inter> set (keys c1) = {}"
    by (auto simp: keys_def)
  from configComputed_loop_staged [OF d1, of "[]" st cl] obtain s1 where
    s1: "snd (configComputed_loop st c1 cl []) = s1" "keys s1 = keys c1"
    by (auto simp: keys_def)
  let ?v = "apply_this f (spread st s1)"
  let ?cl1 = "fst (configComputed_loop st c1 cl [])"
  let ?cl2 = "if 0 < length (getDeps f)
             then ?cl1\<lparr>computedPropDependencies := assign (computedPropDependencies ?cl1) k (getDeps f),
                     computed := assign (computed ?cl1) k f\<rparr>
             else ?cl1"
  have disj: "set (keys c2) \<inter> set (keys (s1 @ [(k, ?v)])) = {}"
    using s1(2) c12 k2 by (auto simp: keys_def)
  from configComputed_loop_staged [OF d2 disj, of st ?cl2] obtain ext where
    ext: "snd (configComputed_loop st c2 ?cl2 (s1 @ [(k, ?v)])) = (s1 @ [(k, ?v)]) @ ext"
         "keys ext = keys c2"
    by blast
  from k1 s1(2) have ks: "k \<notin> set (keys s1)" by simp
  have "snd (configComputed_loop st cm cl []) = s1 @ (k, ?v) # ext"
    using ext(1) by (simp add: cm configComputed_loop_append s1(1) assign_fresh [OF ks] Let_def)
  moreover have "keys (s1 @ (k, ?v) # ext) = keys cm"
    using s1(2) ext(2) by (simp add: cm keys_def)
  ultimately show ?thesis using s1(2) by blast
qed

lemma value_at_split:
  assumes "k \<notin> set (keys u1)"
  shows "getprop (u1 @ (k, v) # ext) k = v" and "takeWhile (\<lambda>e. fst e \<noteq> k) (u1 @ (k, v) # ext) = u1"
proof -
  from assms have "map_of u1 k = None"
    by (simp add: keys_def map_of_eq_None_iff)
  then show "getprop (u1 @ (k, v) # ext) k = v"
    by (simp add: getprop_def map_add_def)
  from assms have "\<forall>e\<in>set u1. fst e \<noteq> k"
    by (auto simp: keys_def)
  then show "takeWhile (\<lambda>e. fst e \<noteq> k) (u1 @ (k, v) # ext) = u1"
    by simp
qed

lemma createStore_registries:
  assumes "distinct (keys cm)" and "addons_computed a = Some cm"
  shows "computed (fst (createStore depth initialState (Some a))) = filter (\<lambda>(k, f). getDeps f \<noteq> []) cm"
    and "computedPropDependencies (fst (createStore depth initialState (Some a)))
           = map (\<lambda>(k, f). (k, getDeps f)) (filter (\<lambda>(k, f). getDeps f \<noteq> []) cm)"
proof -
  let ?cl0 = "\<lparr>computed = [], computedPropDependencies = [], watchers = [],
      settings = \<lparr>name = (case (case addons_settings a of None \<Rightarrow> None | Some s \<Rightarrow> settings_name s) of
                             None \<Rightarrow> ''MyStore'' | Some n \<Rightarrow> n),
                  logLevel = (case (case addons_settings a of None \<Rightarrow> None | Some s \<Rightarrow> settings_logLevel s) of
                             None \<Rightarrow> LogLevel_None | Some l \<Rightarrow> l)\<rparr>\<rparr>"
  have "fst (configComputed_loop initialState cm ?cl0 [])
          = ?cl0\<lparr>computedPropDependencies :=
                  computedPropDependencies ?cl0 @ map (\<lambda>(k, f). (k, getDeps f)) (filter (\<lambda>(k, f). getDeps f \<noteq> []) cm),
                 computed := computed ?cl0 @ filter (\<lambda>(k, f). getDeps f \<noteq> []) cm\<rparr>"
    by (rule configComputed_loop_closure) (use assms(1) in \<open>simp_all add: keys_def\<close>)
  then show "computed (fst (createStore depth initialState (Some a))) = filter (\<lambda>(k, f). getDeps f \<noteq> []) cm"
    and "computedPropDependencies (fst (createStore depth initialState (Some a)))
           = map (\<lambda>(k, f). (k, getDeps f)) (filter (\<lambda>(k, f). getDeps f \<noteq> []) cm)"
    by (simp_all add: createStore_def configComputed_def configWatchers_def assms(2) Let_def)
qed

lemma intersection_Nil: "intersection xs [] = []"
  by (simp add: intersection_def)

lemma hit_keys:
  "map fst (filter (\<lambda>(k, d). intersection ks d \<noteq> []) (map (\<lambda>(k, f). (k, getDeps f)) (filter (\<lambda>(k, f). getDeps f \<noteq> []) cm)))
     = map fst (filter (\<lambda>(k, f). intersection ks (getDeps f) \<noteq> []) cm)"
  by (induction cm) (auto simp: intersection_Nil)

lemma registered_split:
  assumes dist: "distinct (keys cm)" and mem: "(k, f) \<in> set cm" and hit: "intersection ks (getDeps f) \<noteq> []"
  defines "R \<equiv> map (\<lambda>(k, f). (k, getDeps f)) (filter (\<lambda>(k, f). getDeps f \<noteq> []) cm)"
    and "F \<equiv> filter (\<lambda>(k, f). getDeps f \<noteq> []) cm"
  shows "distinct (keys R)" and "\<forall>k\<in>set (keys R). map_of F k \<noteq> None"
    and "\<exists>r1 r2. R = r1 @ (k, getDeps f) # r2" and "map_of F k = Some f"
proof -
  have kR: "keys R = map fst F"
    by (simp add: R_def F_def keys_def comp_def case_prod_unfold)
  have dF: "distinct (map fst F)"
    using dist by (simp add: F_def keys_def distinct_map_filter)
  show "distinct (keys R)"
    by (simp add: kR dF)
  show "\<forall>k\<in>set (keys R). map_of F k \<noteq> None"
    by (simp add: kR map_of_eq_None_iff)
  from hit have ne: "getDeps f \<noteq> []"
    by (auto simp: intersection_Nil)
  with mem have inF: "(k, f) \<in> set F"
    by (simp add: F_def)
  then show "map_of F k = Some f"
    using dF by simp
  from inF have "(k, getDeps f) \<in> set R"
    by (force simp: R_def F_def)
  then show "\<exists>r1 r2. R = r1 @ (k, getDeps f) # r2"
    by (simp add: split_list)
qed

lemma registries_recompute:
  assumes dist: "distinct (keys cm)"
    and c: "computed cl = filter (\<lambda>(k, f). getDeps f \<noteq> []) cm"
    and r: "computedPropDependencies cl = map (\<lambda>(k, f). (k, getDeps f)) (filter (\<lambda>(k, f). getDeps f \<noteq> []) cm)"
  shows "\<exists>uc. recompute (computed cl) cur ch (computedPropDependencies cl) [] = Inr uc
          \<and> keys uc = map fst (filter (\<lambda>(k, f). intersection (keys ch) (getDeps f) \<noteq> []) cm)
          \<and> (\<forall>k f. (k, f) \<in> set cm \<and> intersection (keys ch) (getDeps f) \<noteq> [] \<longrightarrow>
                getprop uc k = apply_this f (spread (spread cur ch) (takeWhile (\<lambda>e. fst e \<noteq> k) uc)))"
proof -
  let ?R = "map (\<lambda>(k, f). (k, getDeps f)) (filter (\<lambda>(k, f). getDeps f \<noteq> []) cm)"
  let ?F = "filter (\<lambda>(k, f). getDeps f \<noteq> []) cm"
  have kR: "keys ?R = map fst ?F"
    by (simp add: keys_def comp_def case_prod_unfold)
  have dF: "distinct (map fst ?F)"
    using dist by (simp add: keys_def distinct_map_filter)
  have dR: "distinct (keys ?R)"
    by (simp only: kR dF)
  have fR: "\<forall>k\<in>set (keys ?R). map_of ?F k \<noteq> None"
    by (simp add: kR map_of_eq_None_iff)
  from recompute_extends [OF dR _ fR, of "[]" cur ch] obtain uc where
    uc: "recompute ?F cur ch ?R [] = Inr uc"
        "keys uc = map fst (filter (\<lambda>(k, d). intersection (keys ch) d \<noteq> []) ?R)"
    by (auto simp: keys_def)
  have vals: "getprop uc k = apply_this f (spread (spread cur ch) (takeWhile (\<lambda>e. fst e \<noteq> k) uc))"
    if mem: "(k, f) \<in> set cm" and hit: "intersection (keys ch) (getDeps f) \<noteq> []" for k f
  proof -
    from registered_split(3,4) [OF dist mem hit] obtain r1 r2 where
      sp: "?R = r1 @ (k, getDeps f) # r2" and f: "map_of ?F k = Some f"
      by blast
    from recompute_split [OF dR fR sp hit f, of cur] obtain u1 ext where
      u1: "k \<notin> set (keys u1)"
          "recompute ?F cur ch ?R [] = Inr (u1 @ (k, apply_this f (spread (spread cur ch) u1)) # ext)"
      by blast
    from u1(2) uc(1) have "uc = u1 @ (k, apply_this f (spread (spread cur ch) u1)) # ext"
      by simp
    then show ?thesis
      by (simp only: value_at_split [OF u1(1)])
  qed
  show ?thesis
    using uc vals by (auto simp only: c r hit_keys)
qed

text \<open>Which entries a pass recomputes, for a list of entries with distinct names.\<close>

lemma recomputed_iff:
  assumes dist: "distinct (keys cm)" and mem: "(k, f) \<in> set cm"
  shows "k \<in> set (map fst (filter (\<lambda>(k, f). intersection ks (getDeps f) \<noteq> []) cm))
           \<longleftrightarrow> intersection ks (getDeps f) \<noteq> []"
proof
  assume "k \<in> set (map fst (filter (\<lambda>(k, f). intersection ks (getDeps f) \<noteq> []) cm))"
  then obtain f' where f': "(k, f') \<in> set cm" "intersection ks (getDeps f') \<noteq> []"
    by auto
  from dist mem f'(1) have "f' = f"
    by (metis keys_def eq_key_imp_eq_value)
  with f'(2) show "intersection ks (getDeps f) \<noteq> []" by simp
next
  assume "intersection ks (getDeps f) \<noteq> []"
  with mem show "k \<in> set (map fst (filter (\<lambda>(k, f). intersection ks (getDeps f) \<noteq> []) cm))"
    by force
qed

lemma distinct_spread: "distinct (keys a) \<Longrightarrow> distinct (keys (spread a b))"
proof -
  have "distinct (keys a) \<Longrightarrow> distinct (keys (fold (\<lambda>(k, v) acc. assign acc k v) b a))" for a
  proof (induction b arbitrary: a)
    case Nil
    then show ?case by simp
  next
    case (Cons e b)
    obtain k v where e: "e = (k, v)" by (cases e)
    from Cons.prems have "distinct (keys (assign a k v))"
      by (rule distinct_assign)
    from Cons.IH [OF this] show ?case
      by (simp add: e)
  qed
  then show "distinct (keys a) \<Longrightarrow> distinct (keys (spread a b))"
    by (simp add: spread_def)
qed

section \<open>The write cycle\<close>

lemma state_console_do [simp]: "state (console_do c e w) = state w"
  by (simp add: console_do_def)

lemma state_log_start [simp]: "state (log_start cl lg cur ch w) = state w"
  by (simp add: log_start_def Let_def)

lemma state_log_computed [simp]: "state (log_computed lg uc w) = state w"
  by (simp add: log_computed_def)

lemma state_log_end [simp]: "state (log_end cl lg w) = state w"
  by (simp add: log_end_def)

lemma setMiddleware_Suc:
  assumes "recompute (computed cl) (state w) (resolve p (state w)) (computedPropDependencies cl) [] = Inr uc"
  shows "setMiddleware (Suc n) cl (p, s) setFn w
           = finish cl (logOperations cl s)
               (dispatch (setState n cl) (logOperations cl s) (watchers cl)
                  (spread (resolve p (state w)) uc) (state w)
                  (setFn (spread (resolve p (state w)) uc)
                     (log_computed (logOperations cl s) uc
                        (log_start cl (logOperations cl s) (state w) (resolve p (state w)) w))))"
proof -
  have "setState n cl = (\<lambda>p s. setMiddleware n cl (p, s) originalSetState)"
    by (rule ext, rule ext) (simp add: setState_def)
  then show ?thesis
    using assms by (simp add: Let_def)
qed

lemma configComputed_loop_snd:
  "snd (configComputed_loop st cm cl cta) = snd (configComputed_loop st cm cl' cta)"
proof (induction cm arbitrary: cl cl' cta)
  case Nil
  show ?case by simp
next
  case (Cons e cm)
  obtain k f where e: "e = (k, f)" by (cases e)
  show ?case
    unfolding e configComputed_loop.simps Let_def by (rule Cons.IH)
qed

lemma createStore_outcome:
  assumes dist: "distinct (keys cm)" and a: "addons_computed a = Some cm"
    and cl: "cl = fst (createStore (Suc depth) initialState (Some a))"
    and staged: "staged = snd (configComputed_loop initialState cm cl' [])"
    and uc: "recompute (computed cl) initialState staged (computedPropDependencies cl) [] = Inr uc"
  shows "\<exists>w0. snd (createStore (Suc depth) initialState (Some a)) = Some (Normal w0)
              \<and> state w0 = (if cm = [] then initialState else spread initialState (spread staged uc))"
proof -
  let ?cl0 = "\<lparr>computed = [], computedPropDependencies = [], watchers = [],
      settings = \<lparr>name = (case (case addons_settings a of None \<Rightarrow> None | Some s \<Rightarrow> settings_name s) of
                             None \<Rightarrow> ''MyStore'' | Some n \<Rightarrow> n),
                  logLevel = (case (case addons_settings a of None \<Rightarrow> None | Some s \<Rightarrow> settings_logLevel s) of
                             None \<Rightarrow> LogLevel_None | Some l \<Rightarrow> l)\<rparr>\<rparr>"
  let ?w0 = "\<lparr>state = initialState, console = []\<rparr>"
  let ?cl1 = "fst (configComputed_loop initialState cm ?cl0 [])"
  have st: "snd (configComputed_loop initialState cm ?cl0 []) = staged"
    unfolding staged by (rule configComputed_loop_snd)
  have cl1: "?cl1 = ?cl0\<lparr>computedPropDependencies :=
                  computedPropDependencies ?cl0 @ map (\<lambda>(k, f). (k, getDeps f)) (filter (\<lambda>(k, f). getDeps f \<noteq> []) cm),
                 computed := computed ?cl0 @ filter (\<lambda>(k, f). getDeps f \<noteq> []) cm\<rparr>"
    by (rule configComputed_loop_closure) (use dist in \<open>simp_all add: keys_def\<close>)
  have w1: "watchers ?cl1 = []"
    by (simp add: cl1)
  have reg: "computed ?cl1 = computed cl" "computedPropDependencies ?cl1 = computedPropDependencies cl"
    using createStore_registries [OF dist a, of "Suc depth" initialState] by (simp_all add: cl cl1)
  have out: "snd (createStore (Suc depth) initialState (Some a))
               = (if 0 < length (keys staged)
                  then setMiddleware (Suc depth) ?cl1 (PlainObj staged, None) originalSetState ?w0
                  else Some (Normal ?w0))"
    by (simp add: createStore_def configComputed_def a Let_def st setState_def)
  from configComputed_loop_staged [OF dist, of "[]" initialState ?cl0] st
  have ks: "keys staged = keys cm"
    by (auto simp: keys_def)
  show ?thesis
  proof (cases "cm = []")
    case True
    then show ?thesis
      using out ks by (simp add: keys_def)
  next
    case False
    from ks have "length staged = length cm"
      by (metis keys_def length_map)
    with False have pos: "0 < length (keys staged)"
      by (simp add: keys_def)
    have rc: "recompute (computed ?cl1) (state ?w0) (resolve (PlainObj staged) (state ?w0))
                (computedPropDependencies ?cl1) [] = Inr uc"
      using uc by (simp add: reg resolve_def)
    let ?lg = "logOperations ?cl1 None"
    let ?W = "log_end ?cl1 ?lg (originalSetState (spread staged uc)
                (log_computed ?lg uc (log_start ?cl1 ?lg initialState staged ?w0)))"
    have "setMiddleware (Suc depth) ?cl1 (PlainObj staged, None) originalSetState ?w0 = Some (Normal ?W)"
      unfolding setMiddleware_Suc [OF rc] w1 by (simp add: finish_def resolve_def)
    moreover have "state ?W = spread initialState (spread staged uc)"
      by (simp add: originalSetState_def)
    ultimately show ?thesis
      using False pos unfolding out by (intro exI [of _ ?W]) simp
  qed
qed

lemma staged_values:
  assumes dist: "distinct (keys cm)" and mem: "(k, f) \<in> set cm"
    and staged: "staged = snd (configComputed_loop st cm cl [])"
  shows "keys staged = keys cm"
    and "getprop staged k = apply_this f (spread st (takeWhile (\<lambda>e. fst e \<noteq> k) staged))"
proof -
  from mem obtain c1 c2 where cm: "cm = c1 @ (k, f) # c2"
    by (auto dest: split_list)
  from configComputed_loop_split [OF dist cm, of st cl] obtain s1 ext where
    s1: "keys s1 = keys c1" "keys (s1 @ (k, apply_this f (spread st s1)) # ext) = keys cm"
        "staged = s1 @ (k, apply_this f (spread st s1)) # ext"
    unfolding staged by blast
  from dist cm have "k \<notin> set (keys c1)"
    by (auto simp: keys_def)
  then have ks: "k \<notin> set (keys s1)"
    by (simp add: s1(1))
  show "keys staged = keys cm"
    by (simp only: s1(2,3))
  show "getprop staged k = apply_this f (spread st (takeWhile (\<lambda>e. fst e \<noteq> k) staged))"
    by (simp only: s1(3) value_at_split [OF ks])
qed

text \<open>
  C3. For a store built from a computed map with distinct names, in every write cycle:
  the recomputation pass succeeds; the names it recomputes are, in registration order,
  those of the entries whose extracted dependencies meet the keys of the explicit
  changes, and no others; each recomputed value is the derivation applied to the
  pre-write state merged with the changes and with the values recomputed before it in
  the pass; an entry with no extracted dependency is never among them; and the write
  commits and dispatches the changes merged with these values. At registration every
  entry is evaluated against the initial state merged with the values staged before it,
  and for an entry with no extracted dependency that value is the one the store holds
  after construction.
\<close>

theorem recomputation_pass:
  assumes dist: "distinct (keys cm)" and a: "addons_computed a = Some cm"
    and cl: "cl = fst (createStore (Suc depth) initialState (Some a))"
    and ch: "changes = resolve partialState (state w)"
    and lg: "lg = logOperations cl setSettings"
  shows "(\<exists>updatedComputed.
            recompute (computed cl) (state w) changes (computedPropDependencies cl) [] = Inr updatedComputed
          \<and> keys updatedComputed = map fst (filter (\<lambda>(k, f). intersection (keys changes) (getDeps f) \<noteq> []) cm)
          \<and> (\<forall>k f. (k, f) \<in> set cm \<longrightarrow>
                (k \<in> set (keys updatedComputed) \<longleftrightarrow> intersection (keys changes) (getDeps f) \<noteq> []))
          \<and> (\<forall>k f. (k, f) \<in> set cm \<and> intersection (keys changes) (getDeps f) \<noteq> [] \<longrightarrow>
                getprop updatedComputed k
                  = apply_this f (spread (spread (state w) changes) (takeWhile (\<lambda>e. fst e \<noteq> k) updatedComputed)))
          \<and> (\<forall>k f. (k, f) \<in> set cm \<and> getDeps f = [] \<longrightarrow> k \<notin> set (keys updatedComputed))
          \<and> setMiddleware (Suc n) cl (partialState, setSettings) setFn w
              = finish cl lg
                  (dispatch (setState n cl) lg (watchers cl) (spread changes updatedComputed) (state w)
                     (setFn (spread changes updatedComputed)
                        (log_computed lg updatedComputed (log_start cl lg (state w) changes w)))))
       \<and> (\<exists>staged w0.
            snd (createStore (Suc depth) initialState (Some a)) = Some (Normal w0)
          \<and> keys staged = keys cm
          \<and> (\<forall>k f. (k, f) \<in> set cm \<longrightarrow>
                getprop staged k = apply_this f (spread initialState (takeWhile (\<lambda>e. fst e \<noteq> k) staged)))
          \<and> (\<forall>k f. (k, f) \<in> set cm \<and> getDeps f = [] \<longrightarrow> getprop (state w0) k = getprop staged k))"
proof -
  note reg = createStore_registries [OF dist a, of "Suc depth" initialState, folded cl]
  from registries_recompute [OF dist reg, of "state w" changes] obtain uc where
    uc: "recompute (computed cl) (state w) changes (computedPropDependencies cl) [] = Inr uc"
        "keys uc = map fst (filter (\<lambda>(k, f). intersection (keys changes) (getDeps f) \<noteq> []) cm)"
        "\<forall>k f. (k, f) \<in> set cm \<and> intersection (keys changes) (getDeps f) \<noteq> [] \<longrightarrow>
           getprop uc k = apply_this f (spread (spread (state w) changes) (takeWhile (\<lambda>e. fst e \<noteq> k) uc))"
    by blast
  have iff: "k \<in> set (keys uc) \<longleftrightarrow> intersection (keys changes) (getDeps f) \<noteq> []"
    if "(k, f) \<in> set cm" for k f
    unfolding uc(2) by (rule recomputed_iff [OF dist that])
  have never: "k \<notin> set (keys uc)" if "(k, f) \<in> set cm" "getDeps f = []" for k f
    using iff [OF that(1)] that(2) by (simp add: intersection_Nil)
  have wr: "setMiddleware (Suc n) cl (partialState, setSettings) setFn w
              = finish cl lg
                  (dispatch (setState n cl) lg (watchers cl) (spread changes uc) (state w)
                     (setFn (spread changes uc)
                        (log_computed lg uc (log_start cl lg (state w) changes w))))"
    unfolding ch lg by (rule setMiddleware_Suc) (use uc(1) in \<open>simp add: ch\<close>)
  have first: "\<exists>updatedComputed.
            recompute (computed cl) (state w) changes (computedPropDependencies cl) [] = Inr updatedComputed
          \<and> keys updatedComputed = map fst (filter (\<lambda>(k, f). intersection (keys changes) (getDeps f) \<noteq> []) cm)
          \<and> (\<forall>k f. (k, f) \<in> set cm \<longrightarrow>
                (k \<in> set (keys updatedComputed) \<longleftrightarrow> intersection (keys changes) (getDeps f) \<noteq> []))
          \<and> (\<forall>k f. (k, f) \<in> set cm \<and> intersection (keys changes) (getDeps f) \<noteq> [] \<longrightarrow>
                getprop updatedComputed k
                  = apply_this f (spread (spread (state w) changes) (takeWhile (\<lambda>e. fst e \<noteq> k) updatedComputed)))
          \<and> (\<forall>k f. (k, f) \<in> set cm \<and> getDeps f = [] \<longrightarrow> k \<notin> set (keys updatedComputed))
          \<and> setMiddleware (Suc n) cl (partialState, setSettings) setFn w
              = finish cl lg
                  (dispatch (setState n cl) lg (watchers cl) (spread changes updatedComputed) (state w)
                     (setFn (spread changes updatedComputed)
                        (log_computed lg updatedComputed (log_start cl lg (state w) changes w))))"
    using uc(1,2,3) iff never wr by (intro exI [of _ uc] conjI) blast+
  define staged where "staged = snd (configComputed_loop initialState cm cl [])"
  from registries_recompute [OF dist reg, of initialState staged] obtain uc0 where
    uc0: "recompute (computed cl) initialState staged (computedPropDependencies cl) [] = Inr uc0"
         "keys uc0 = map fst (filter (\<lambda>(k, f). intersection (keys staged) (getDeps f) \<noteq> []) cm)"
    by blast
  from createStore_outcome [OF dist a cl staged_def uc0(1)] obtain w0 where
    w0: "snd (createStore (Suc depth) initialState (Some a)) = Some (Normal w0)"
        "state w0 = (if cm = [] then initialState else spread initialState (spread staged uc0))"
    by blast
  have d0: "distinct (keys uc0)"
    using dist unfolding uc0(2) by (simp add: keys_def distinct_map_filter)
  have static: "getprop (state w0) k = getprop staged k" if mem: "(k, f) \<in> set cm" and nd: "getDeps f = []" for k f
  proof -
    from mem have ne: "cm \<noteq> []" by auto
    have ks: "keys staged = keys cm"
      by (rule staged_values(1) [OF dist mem staged_def])
    with dist have ds: "distinct (keys (spread staged uc0))"
      by (simp add: distinct_spread)
    from mem have "k \<in> set (keys cm)"
      by (force simp: keys_def)
    then have kin: "k \<in> set (keys (spread staged uc0))"
      by (simp add: keys_spread ks)
    have kout: "k \<notin> set (keys uc0)"
      unfolding uc0(2) using recomputed_iff [OF dist mem, of "keys staged"] nd
      by (simp add: intersection_Nil)
    show ?thesis
      using ne kin kout by (simp add: w0(2) getprop_spread [OF ds] getprop_spread [OF d0])
  qed
  have second: "\<exists>staged w0.
            snd (createStore (Suc depth) initialState (Some a)) = Some (Normal w0)
          \<and> keys staged = keys cm
          \<and> (\<forall>k f. (k, f) \<in> set cm \<longrightarrow>
                getprop staged k = apply_this f (spread initialState (takeWhile (\<lambda>e. fst e \<noteq> k) staged)))
          \<and> (\<forall>k f. (k, f) \<in> set cm \<and> getDeps f = [] \<longrightarrow> getprop (state w0) k = getprop staged k)"
  proof (cases "cm = []")
    case True
    with w0(1) show ?thesis
      by (intro exI [of _ "[]"] exI [of _ w0]) (simp add: keys_def)
  next
    case False
    then obtain k0 f0 where m0: "(k0, f0) \<in> set cm"
      by (cases cm) auto
    show ?thesis
      using w0(1) staged_values(1) [OF dist m0 staged_def] staged_values(2) [OF dist _ staged_def] static
      by (intro exI [of _ staged] exI [of _ w0] conjI) blast+
  qed
  from first second show ?thesis by (rule conjI)
qed

lemma example_deps:
  "getDeps doubleCount = [''count'']" "getDeps label = []"
  "getDeps totalCount = [''count'', ''doubleCount'']" "getDeps quadruple = [''doubleCount'']"
  by (simp_all add: getDeps_all_matches doubleCount_def label_def totalCount_def quadruple_def
        exec_reg_def exec_reg2_def word_char_def)


theorem recomputation_pass_witness:
  "distinct (keys example_computed)
   \<and> addons_computed example_addons = Some example_computed
   \<and> (\<exists>updatedComputed.
        recompute (computed (fst (createStore (Suc 0) [(''count'', Num 1)] (Some example_addons))))
          (state example_world) [(''count'', Num 5)]
          (computedPropDependencies (fst (createStore (Suc 0) [(''count'', Num 1)] (Some example_addons)))) []
          = Inr updatedComputed
      \<and> keys updatedComputed = [''doubleCount'', ''total''])"
proof -
  have d: "distinct (keys example_computed)"
    by (simp add: example_computed_def keys_def)
  have a: "addons_computed example_addons = Some example_computed"
    by (simp add: example_addons_def)
  have k: "map fst (filter (\<lambda>(k, f). intersection (keys [(''count'', Num 5)]) (getDeps f) \<noteq> []) example_computed)
             = [''doubleCount'', ''total'']"
    by (simp add: example_computed_def example_deps intersection_def keys_def)
  from recomputation_pass [OF d a refl refl refl,
      where depth = 0 and initialState = "[(''count'', Num 1)]" and partialState = "PlainObj [(''count'', Num 5)]"
        and w = example_world and setSettings = None and n = 0 and setFn = originalSetState]
  obtain uc where
    "recompute (computed (fst (createStore (Suc 0) [(''count'', Num 1)] (Some example_addons))))
          (state example_world) (resolve (PlainObj [(''count'', Num 5)]) (state example_world))
          (computedPropDependencies (fst (createStore (Suc 0) [(''count'', Num 1)] (Some example_addons)))) []
          = Inr uc"
    "keys uc = map fst (filter (\<lambda>(k, f). intersection (keys (resolve (PlainObj [(''count'', Num 5)]) (state example_world)))
                  (getDeps f) \<noteq> []) example_computed)"
    by blast
  then show ?thesis
    using d a k by (auto simp: resolve_def)
qed

lemma getprop_prefix:
  assumes "k \<in> set (keys u1)"
  shows "getprop (u1 @ rest) k = getprop u1 k"
proof -
  from assms have "map_of u1 k \<noteq> None"
    by (simp add: keys_def map_of_eq_None_iff)
  then show ?thesis
    by (auto simp: getprop_def map_add_def split: option.splits)
qed

lemma post_commit_agrees:
  assumes dch: "distinct (keys ch)" and duc: "distinct (keys uc)"
    and later: "d \<in> set (keys uc) \<longrightarrow> d \<in> set (keys (takeWhile P uc))"
  shows "getprop (spread cur (spread ch uc)) d = getprop (spread (spread cur ch) (takeWhile P uc)) d"
proof -
  let ?u1 = "takeWhile P uc"
  have uc: "uc = ?u1 @ dropWhile P uc" by simp
  have sub: "set (keys ?u1) \<subseteq> set (keys uc)"
    by (auto simp: keys_def dest: set_takeWhileD)
  have du1: "distinct (keys ?u1)"
    using duc by (metis uc keys_def distinct_append map_append)
  have dsp: "distinct (keys (spread ch uc))"
    using dch by (rule distinct_spread)
  have lhs: "getprop (spread cur (spread ch uc)) d
               = (if d \<in> set (keys uc) then getprop uc d
                  else if d \<in> set (keys ch) then getprop ch d else getprop cur d)"
    by (simp add: getprop_spread [OF dsp] getprop_spread [OF duc] keys_spread)
  have rhs: "getprop (spread (spread cur ch) ?u1) d
               = (if d \<in> set (keys ?u1) then getprop ?u1 d
                  else if d \<in> set (keys ch) then getprop ch d else getprop cur d)"
    by (simp add: getprop_spread [OF du1] getprop_spread [OF dch])
  show ?thesis
  proof (cases "d \<in> set (keys ?u1)")
    case True
    with sub have "d \<in> set (keys uc)" by blast
    moreover have "getprop uc d = getprop ?u1 d"
      using getprop_prefix [OF True, of "dropWhile P uc"] by simp
    ultimately show ?thesis
      using True by (simp only: lhs rhs if_True)
  next
    case False
    with later have "d \<notin> set (keys uc)" by blast
    with False show ?thesis
      by (simp only: lhs rhs if_False)
  qed
qed

section \<open>Consistency of computed values\<close>

text \<open>
  C1, as stated, fails. In the example store \<open>quadruple\<close> depends on \<open>doubleCount\<close>, which
  is itself computed from \<open>count\<close>. Writing \<open>{count: 5}\<close> recomputes \<open>doubleCount\<close> from 2
  to 10, but \<open>quadruple\<close> is not recomputed, since \<open>doubleCount\<close> is not a key of the
  explicit changes: the committed state holds 4 where the derivation on that state gives 20.
\<close>

theorem stale_chained_computed:
  "setState (Suc 0) (fst (createStore (Suc 0) [(''count'', Num 1)] (Some example_addons)))
       (PlainObj [(''count'', Num 5)]) None example_world
     = Some (Normal \<lparr>state = [(''count'', Num 5), (''doubleCount'', Num 10), (''label'', Str ''counter''),
                               (''total'', Num 15), (''quadruple'', Num 4)],
                      console = []\<rparr>)
   \<and> ''doubleCount'' \<in> set (getDeps quadruple)
   \<and> getprop (state example_world) ''doubleCount'' = Num 2
   \<and> apply_this quadruple [(''count'', Num 5), (''doubleCount'', Num 10), (''label'', Str ''counter''),
                           (''total'', Num 15), (''quadruple'', Num 4)] = Num 20"
proof -
  have reg: "fst (createStore (Suc 0) [(''count'', Num 1)] (Some example_addons))
      = \<lparr>computed = [(''doubleCount'', doubleCount), (''total'', totalCount), (''quadruple'', quadruple)],
         computedPropDependencies = [(''doubleCount'', [''count'']), (''total'', [''count'', ''doubleCount'']),
                                     (''quadruple'', [''doubleCount''])],
         watchers = [], settings = \<lparr>name = ''MyStore'', logLevel = ''none''\<rparr>\<rparr>"
    by (simp add: createStore_def configComputed_def configWatchers_def example_addons_def example_computed_def
          example_deps assign_def LogLevel_None_def Let_def)
  have 1: "setState (Suc 0) (fst (createStore (Suc 0) [(''count'', Num 1)] (Some example_addons)))
       (PlainObj [(''count'', Num 5)]) None example_world
     = Some (Normal \<lparr>state = [(''count'', Num 5), (''doubleCount'', Num 10), (''label'', Str ''counter''),
                               (''total'', Num 15), (''quadruple'', Num 4)],
                      console = []\<rparr>)"
    unfolding reg
    by (simp add: setState_def example_world_def logOperations_def LogLevel_None_def resolve_def
          log_start_def log_computed_def log_end_def finish_def console_do_def originalSetState_def
          intersection_def keys_def spread_def assign_def getprop_def
          doubleCount_def totalCount_def quadruple_def Let_def)
  have 2: "apply_this quadruple [(''count'', Num 5), (''doubleCount'', Num 10), (''label'', Str ''counter''),
                           (''total'', Num 15), (''quadruple'', Num 4)] = Num 20"
    by (simp add: quadruple_def getprop_def)
  show ?thesis
    using 1 2 by (simp add: example_deps example_world_def getprop_def)
qed

text \<open>
  C1, amended. For a store built from a computed map with distinct names and a write
  whose changes are an object: if an extracted dependency of an entry is a key of the
  explicit changes, the write recomputes the entry, and the value the commit stores for
  it is the derivation applied to the pre-write state merged with the changes and with
  the values recomputed before it in the pass. When moreover the derivation reads nothing
  but its extracted dependencies and every dependency recomputed in the pass is recomputed
  before the entry, that value is the derivation applied to the committed state. An entry
  none of whose extracted dependencies is a key of the explicit changes is not recomputed,
  whatever else the pass recomputes, and keeps the value it had unless the changes name it.
\<close>

theorem computed_consistent_on_explicit_change:
  assumes dist: "distinct (keys cm)" and a: "addons_computed a = Some cm"
    and cl: "cl = fst (createStore (Suc depth) initialState (Some a))"
    and ch: "changes = resolve partialState (state w)" and dch: "distinct (keys changes)"
    and lg: "lg = logOperations cl setSettings"
    and mem: "(k, f) \<in> set cm" and hit: "intersection (keys changes) (getDeps f) \<noteq> []"
  shows "\<exists>updatedComputed committed.
           recompute (computed cl) (state w) changes (computedPropDependencies cl) [] = Inr updatedComputed
         \<and> setMiddleware (Suc n) cl (partialState, setSettings) originalSetState w
             = finish cl lg (dispatch (setState n cl) lg (watchers cl) (spread changes updatedComputed)
                               (state w) committed)
         \<and> state committed = spread (state w) (spread changes updatedComputed)
         \<and> getprop (state committed) k
             = apply_this f (spread (spread (state w) changes) (takeWhile (\<lambda>e. fst e \<noteq> k) updatedComputed))
         \<and> ((\<forall>d\<in>set (getDeps f). d \<in> set (keys updatedComputed)
                  \<longrightarrow> d \<in> set (keys (takeWhile (\<lambda>e. fst e \<noteq> k) updatedComputed)))
              \<and> (\<forall>s s'. (\<forall>d\<in>set (getDeps f). getprop s d = getprop s' d) \<longrightarrow> apply_this f s = apply_this f s')
              \<longrightarrow> getprop (state committed) k = apply_this f (state committed))
         \<and> (\<forall>k' f'. (k', f') \<in> set cm \<and> intersection (keys changes) (getDeps f') = [] \<longrightarrow>
                k' \<notin> set (keys updatedComputed)
              \<and> (k' \<notin> set (keys changes) \<longrightarrow> getprop (state committed) k' = getprop (state w) k'))"
proof -
  note reg = createStore_registries [OF dist a, of "Suc depth" initialState, folded cl]
  from registries_recompute [OF dist reg, of "state w" changes] obtain uc where
    uc: "recompute (computed cl) (state w) changes (computedPropDependencies cl) [] = Inr uc"
        "keys uc = map fst (filter (\<lambda>(k, f). intersection (keys changes) (getDeps f) \<noteq> []) cm)"
        "\<forall>k f. (k, f) \<in> set cm \<and> intersection (keys changes) (getDeps f) \<noteq> [] \<longrightarrow>
           getprop uc k = apply_this f (spread (spread (state w) changes) (takeWhile (\<lambda>e. fst e \<noteq> k) uc))"
    by blast
  define committed where
    "committed = originalSetState (spread changes uc) (log_computed lg uc (log_start cl lg (state w) changes w))"
  have wr: "setMiddleware (Suc n) cl (partialState, setSettings) originalSetState w
              = finish cl lg (dispatch (setState n cl) lg (watchers cl) (spread changes uc) (state w) committed)"
    unfolding ch lg committed_def by (rule setMiddleware_Suc) (use uc(1) in \<open>simp add: ch\<close>)
  have st: "state committed = spread (state w) (spread changes uc)"
    by (simp add: committed_def originalSetState_def)
  have duc: "distinct (keys uc)"
    using dist unfolding uc(2) by (simp add: keys_def distinct_map_filter)
  have dsp: "distinct (keys (spread changes uc))"
    using dch by (rule distinct_spread)
  have kin: "k \<in> set (keys uc)"
    unfolding uc(2) using recomputed_iff [OF dist mem] hit by blast
  have val: "getprop (state committed) k
      = apply_this f (spread (spread (state w) changes) (takeWhile (\<lambda>e. fst e \<noteq> k) uc))"
    using kin uc(3) mem hit by (simp add: st getprop_spread [OF dsp] getprop_spread [OF duc] keys_spread)
  have fresh: "getprop (state committed) k = apply_this f (state committed)"
    if later: "\<forall>d\<in>set (getDeps f). d \<in> set (keys uc) \<longrightarrow> d \<in> set (keys (takeWhile (\<lambda>e. fst e \<noteq> k) uc))"
      and reads: "\<forall>s s'. (\<forall>d\<in>set (getDeps f). getprop s d = getprop s' d) \<longrightarrow> apply_this f s = apply_this f s'"
  proof -
    have "\<forall>d\<in>set (getDeps f). getprop (state committed) d
            = getprop (spread (spread (state w) changes) (takeWhile (\<lambda>e. fst e \<noteq> k) uc)) d"
      using later by (auto simp only: st intro!: post_commit_agrees [OF dch duc])
    with reads have "apply_this f (state committed)
        = apply_this f (spread (spread (state w) changes) (takeWhile (\<lambda>e. fst e \<noteq> k) uc))"
      by blast
    with val show ?thesis by simp
  qed
  have stale: "k' \<notin> set (keys uc)
      \<and> (k' \<notin> set (keys changes) \<longrightarrow> getprop (state committed) k' = getprop (state w) k')"
    if mem': "(k', f') \<in> set cm" and miss: "intersection (keys changes) (getDeps f') = []" for k' f'
  proof -
    have out: "k' \<notin> set (keys uc)"
      unfolding uc(2) using recomputed_iff [OF dist mem'] miss by blast
    then have "getprop (state committed) k' = getprop (state w) k'" if "k' \<notin> set (keys changes)"
      using that by (simp add: st getprop_spread [OF dsp] keys_spread)
    with out show ?thesis by blast
  qed
  show ?thesis
    using uc(1) wr st val fresh stale by (intro exI [of _ uc] exI [of _ committed] conjI impI allI) blast+
qed

theorem computed_consistent_on_explicit_change_witness:
  "distinct (keys example_computed)
   \<and> addons_computed example_addons = Some example_computed
   \<and> distinct (keys (resolve (PlainObj [(''count'', Num 5)]) (state example_world)))
   \<and> (''total'', totalCount) \<in> set example_computed
   \<and> intersection (keys (resolve (PlainObj [(''count'', Num 5)]) (state example_world))) (getDeps totalCount) \<noteq> []
   \<and> (\<exists>updatedComputed committed.
         setMiddleware (Suc 0) (fst (createStore (Suc 0) [(''count'', Num 1)] (Some example_addons)))
             (PlainObj [(''count'', Num 5)], None) originalSetState example_world
           = finish (fst (createStore (Suc 0) [(''count'', Num 1)] (Some example_addons)))
               (logOperations (fst (createStore (Suc 0) [(''count'', Num 1)] (Some example_addons))) None)
               (dispatch (setState 0 (fst (createStore (Suc 0) [(''count'', Num 1)] (Some example_addons))))
                  (logOperations (fst (createStore (Suc 0) [(''count'', Num 1)] (Some example_addons))) None)
                  (watchers (fst (createStore (Suc 0) [(''count'', Num 1)] (Some example_addons))))
                  (spread (resolve (PlainObj [(''count'', Num 5)]) (state example_world)) updatedComputed)
                  (state example_world) committed)
       \<and> getprop (state committed) ''total''
           = apply_this totalCount
               (spread (spread (state example_world) (resolve (PlainObj [(''count'', Num 5)]) (state example_world)))
                  (takeWhile (\<lambda>e. fst e \<noteq> ''total'') updatedComputed)))"
proof -
  have d: "distinct (keys example_computed)"
    by (simp add: example_computed_def keys_def)
  have a: "addons_computed example_addons = Some example_computed"
    by (simp add: example_addons_def)
  have dch: "distinct (keys (resolve (PlainObj [(''count'', Num 5)]) (state example_world)))"
    by (simp add: resolve_def keys_def)
  have mem: "(''total'', totalCount) \<in> set example_computed"
    by (simp add: example_computed_def)
  have hit: "intersection (keys (resolve (PlainObj [(''count'', Num 5)]) (state example_world))) (getDeps totalCount) \<noteq> []"
    by (simp add: resolve_def keys_def intersection_def example_deps)
  from computed_consistent_on_explicit_change [OF d a refl refl dch refl mem hit,
      where depth = 0 and initialState = "[(''count'', Num 1)]" and setSettings = None and n = 0]
  show ?thesis
    using d a dch mem hit by blast
qed

section \<open>Watcher dispatch\<close>

lemma dispatch_append:
  "dispatch st lg (ws1 @ ws2) ns cur w
     = (case dispatch st lg ws1 ns cur w of
          None \<Rightarrow> None
        | Some (Threw e w') \<Rightarrow> Some (Threw e w')
        | Some (Normal w1) \<Rightarrow> dispatch st lg ws2 ns cur w1)"
proof (induction ws1 arbitrary: w)
  case Nil
  show ?case by simp
next
  case (Cons a ws1)
  obtain k fn where a: "a = (k, fn)" by (cases a)
  show ?case
    by (simp add: a Cons.IH split: option.splits outcome.splits)
qed

lemma finish_Threw: "finish cl lg (Some (Threw e w)) = Some (Threw e w)"
  by (simp add: finish_def)

lemma finish_False: "finish cl False r = r"
  by (simp add: finish_def log_end_def console_do_def split: option.splits outcome.splits)

lemma setState_Suc:
  assumes "recompute (computed cl) (state w) (resolve p (state w)) (computedPropDependencies cl) [] = Inr uc"
  shows "setState (Suc n) cl p s w
           = finish cl (logOperations cl s)
               (dispatch (setState n cl) (logOperations cl s) (watchers cl)
                  (spread (resolve p (state w)) uc) (state w)
                  (originalSetState (spread (resolve p (state w)) uc)
                     (log_computed (logOperations cl s) uc
                        (log_start cl (logOperations cl s) (state w) (resolve p (state w)) w))))"
proof -
  have "setState (Suc n) cl p s w = setMiddleware (Suc n) cl (p, s) originalSetState w"
    by (simp only: setState_def)
  also note setMiddleware_Suc [OF assms]
  finally show ?thesis .
qed

text \<open>
  C6. Take a write whose recomputation pass succeeded, and a watcher in the registry
  whose property is in the committed object. If the watchers before it in the registry
  ran to completion and this one throws, the write call ends with that exception, in the
  world the throwing watcher left: the watchers after it in the registry have no part in
  the outcome, the closing console calls are skipped, and nothing undoes the commit, which
  merged the new state into the store before the first watcher ran.
\<close>

theorem watcher_failure:
  assumes rc: "recompute (computed cl) (state w) changes (computedPropDependencies cl) [] = Inr updatedComputed"
    and ch: "changes = resolve partialState (state w)"
    and lg: "lg = logOperations cl setSettings"
    and ns: "newState = spread changes updatedComputed"
    and cm: "committed = originalSetState newState (log_computed lg updatedComputed (log_start cl lg (state w) changes w))"
    and ws: "watchers cl = before @ (propName, fn) # later"
    and pre: "dispatch (setState n cl) lg before newState (state w) committed = Some (Normal w1)"
    and hit: "propName \<in> set (keys newState)"
    and raise: "fn (setState n cl) (getprop newState propName) (getprop (state w) propName)
                  (console_do lg (Log (''Triggering watcher: '' @ propName)) w1) = Some (Threw e w2)"
  shows "setState (Suc n) cl partialState setSettings w = Some (Threw e w2)
         \<and> state committed = spread (state w) newState"
proof -
  have d: "dispatch (setState n cl) lg (watchers cl) newState (state w) committed = Some (Threw e w2)"
    unfolding ws dispatch_append pre using hit raise by simp
  have "setState (Suc n) cl partialState setSettings w
          = finish cl lg (dispatch (setState n cl) lg (watchers cl) newState (state w) committed)"
    unfolding ch lg ns cm by (rule setState_Suc) (use rc in \<open>simp add: ch\<close>)
  then have "setState (Suc n) cl partialState setSettings w = Some (Threw e w2)"
    by (simp only: d finish_Threw)
  moreover have "state committed = spread (state w) newState"
    by (simp add: cm originalSetState_def)
  ultimately show ?thesis by simp
qed

lemma watch_store:
  "fst (createStore (Suc 0) [] (Some watch_addons))
     = \<lparr>computed = [], computedPropDependencies = [],
        watchers = [(''a'', record_call ''a''), (''b'', thrower), (''c'', record_call ''c'')],
        settings = \<lparr>name = ''MyStore'', logLevel = ''none''\<rparr>\<rparr>"
  by (simp add: createStore_def configComputed_def configWatchers_def watch_addons_def
        assign_def LogLevel_None_def Let_def keys_def)

theorem watcher_failure_witness:
  "setState (Suc 0) (fst (createStore (Suc 0) [] (Some watch_addons)))
       (PlainObj [(''a'', Num 1), (''b'', Num 2), (''c'', Num 3)]) None empty_world
     = Some (Threw (Str ''boom'')
         \<lparr>state = [(''a'', Num 1), (''b'', Num 2), (''c'', Num 3)],
          console = [LogObj ''a'' [(''newValue'', Num 1), (''oldValue'', Undefined)]]\<rparr>)"
proof -
  let ?cl = "fst (createStore (Suc 0) [] (Some watch_addons))"
  let ?ch = "[(''a'', Num 1), (''b'', Num 2), (''c'', Num 3)]"
  let ?w1 = "\<lparr>state = ?ch, console = [LogObj ''a'' [(''newValue'', Num 1), (''oldValue'', Undefined)]]\<rparr>"
  have lg: "logOperations ?cl None = False"
    by (simp add: watch_store logOperations_def LogLevel_None_def)
  have rc: "recompute (computed ?cl) (state empty_world) ?ch (computedPropDependencies ?cl) [] = Inr []"
    by (simp add: watch_store)
  have ch: "?ch = resolve (PlainObj ?ch) (state empty_world)"
    by (simp add: resolve_def)
  have ns: "?ch = spread ?ch []"
    by (simp add: spread_def)
  have cm: "\<lparr>state = ?ch, console = []\<rparr>
              = originalSetState ?ch (log_computed False [] (log_start ?cl False (state empty_world) ?ch empty_world))"
    by (simp add: originalSetState_def log_computed_def log_start_def console_do_def empty_world_def
          spread_def assign_def keys_def Let_def)
  have ws: "watchers ?cl = [(''a'', record_call ''a'')] @ (''b'', thrower) # [(''c'', record_call ''c'')]"
    by (simp add: watch_store)
  have pre: "dispatch (setState 0 ?cl) False [(''a'', record_call ''a'')] ?ch (state empty_world)
               \<lparr>state = ?ch, console = []\<rparr> = Some (Normal ?w1)"
    by (simp add: record_call_def console_do_def keys_def getprop_def empty_world_def)
  have hit: "''b'' \<in> set (keys ?ch)"
    by (simp add: keys_def)
  have raise: "thrower (setState 0 ?cl) (getprop ?ch ''b'') (getprop (state empty_world) ''b'')
                 (console_do False (Log (''Triggering watcher: '' @ ''b'')) ?w1) = Some (Threw (Str ''boom'') ?w1)"
    by (simp add: thrower_def console_do_def)
  from watcher_failure [OF rc ch lg [symmetric] ns cm ws pre hit raise]
  show ?thesis by simp
qed

lemma fail_first_store:
  "fst (createStore (Suc 0) [] (Some fail_first_addons))
     = \<lparr>computed = [], computedPropDependencies = [],
        watchers = [(''a'', thrower), (''b'', record_call ''b'')],
        settings = \<lparr>name = ''MyStore'', logLevel = ''none''\<rparr>\<rparr>"
  by (simp add: createStore_def configComputed_def configWatchers_def fail_first_addons_def
        assign_def LogLevel_None_def Let_def keys_def)

lemma count_store:
  "fst (createStore (Suc 0) [(''count'', Num 1)] (Some count_addons))
     = \<lparr>computed = [], computedPropDependencies = [],
        watchers = [(''count'', record_call ''count'')],
        settings = \<lparr>name = ''MyStore'', logLevel = ''none''\<rparr>\<rparr>"
  by (simp add: createStore_def configComputed_def configWatchers_def count_addons_def
        assign_def LogLevel_None_def Let_def keys_def)

text \<open>
  C2, as stated, fails. With a watcher on \<open>a\<close> that throws registered before a watcher on
  \<open>b\<close>, the write \<open>{a: 1, b: 2}\<close> commits both properties and ends with the exception of
  the first watcher; the watcher on \<open>b\<close>, which would have logged its two arguments, is
  not called although \<open>b\<close> is in the committed change set.
\<close>

theorem watcher_not_invoked_after_failure:
  "setState (Suc 0) (fst (createStore (Suc 0) [] (Some fail_first_addons)))
       (PlainObj [(''a'', Num 1), (''b'', Num 2)]) None empty_world
     = Some (Threw (Str ''boom'') \<lparr>state = [(''a'', Num 1), (''b'', Num 2)], console = []\<rparr>)
   \<and> map_of (watchers (fst (createStore (Suc 0) [] (Some fail_first_addons)))) ''b'' = Some (record_call ''b'')
   \<and> ''b'' \<in> set (keys [(''a'', Num 1), (''b'', Num 2)])
   \<and> record_call ''b'' (setState 0 (fst (createStore (Suc 0) [] (Some fail_first_addons)))) (Num 2) Undefined
        \<lparr>state = [(''a'', Num 1), (''b'', Num 2)], console = []\<rparr>
      = Some (Normal \<lparr>state = [(''a'', Num 1), (''b'', Num 2)],
                      console = [LogObj ''b'' [(''newValue'', Num 2), (''oldValue'', Undefined)]]\<rparr>)"
proof -
  have "setState (Suc 0) (fst (createStore (Suc 0) [] (Some fail_first_addons)))
       (PlainObj [(''a'', Num 1), (''b'', Num 2)]) None empty_world
     = Some (Threw (Str ''boom'') \<lparr>state = [(''a'', Num 1), (''b'', Num 2)], console = []\<rparr>)"
    unfolding fail_first_store
    by (simp add: setState_def empty_world_def logOperations_def LogLevel_None_def resolve_def
          log_start_def log_computed_def finish_def console_do_def originalSetState_def
          keys_def spread_def assign_def getprop_def thrower_def Let_def)
  then show ?thesis
    by (simp add: fail_first_store keys_def record_call_def)
qed

text \<open>
  C2, amended. Take a write whose changes are an object and whose recomputation pass
  succeeded, and a watcher registered on \<open>K\<close>, the watchers before it in the registry having
  run to completion. If \<open>K\<close> is a key of the committed object, the watcher is called, once
  (no other entry of the registry is on \<open>K\<close>), with the value the commit stored for \<open>K\<close>
  and the value \<open>K\<close> had before the write, whether or not the two differ, and the pass goes
  on with the watchers after it when it returns; if \<open>K\<close> is not a key of the committed
  object the pass goes on without calling it.
\<close>

theorem watcher_dispatch:
  assumes rc: "recompute (computed cl) (state w) changes (computedPropDependencies cl) [] = Inr updatedComputed"
    and ch: "changes = resolve partialState (state w)" and dch: "distinct (keys changes)"
    and lg: "lg = logOperations cl setSettings"
    and ns: "newState = spread changes updatedComputed"
    and cm: "committed = originalSetState newState (log_computed lg updatedComputed (log_start cl lg (state w) changes w))"
    and dw: "distinct (keys (watchers cl))"
    and ws: "watchers cl = before @ (K, fn) # later"
    and pre: "dispatch (setState n cl) lg before newState (state w) committed = Some (Normal w1)"
  shows "(K \<in> set (keys newState) \<longrightarrow>
            setState (Suc n) cl partialState setSettings w
              = finish cl lg
                  (case fn (setState n cl) (getprop newState K) (getprop (state w) K)
                          (console_do lg (Log (''Triggering watcher: '' @ K)) w1) of
                     None \<Rightarrow> None
                   | Some (Threw e w') \<Rightarrow> Some (Threw e w')
                   | Some (Normal w2) \<Rightarrow> dispatch (setState n cl) lg later newState (state w) w2)
            \<and> getprop (state committed) K = getprop newState K)
         \<and> (K \<notin> set (keys newState) \<longrightarrow>
              setState (Suc n) cl partialState setSettings w
                = finish cl lg (dispatch (setState n cl) lg later newState (state w) w1))
         \<and> K \<notin> set (keys before) \<and> K \<notin> set (keys later)"
proof -
  have wr: "setState (Suc n) cl partialState setSettings w
          = finish cl lg (dispatch (setState n cl) lg (watchers cl) newState (state w) committed)"
    unfolding ch lg ns cm by (rule setState_Suc) (use rc in \<open>simp add: ch\<close>)
  have d: "dispatch (setState n cl) lg (watchers cl) newState (state w) committed
             = dispatch (setState n cl) lg ((K, fn) # later) newState (state w) w1"
    unfolding ws dispatch_append pre by simp
  have once: "K \<notin> set (keys before) \<and> K \<notin> set (keys later)"
    using dw unfolding ws by (auto simp: keys_def)
  have dns: "distinct (keys newState)"
    unfolding ns using dch by (rule distinct_spread)
  have post: "getprop (state committed) K = getprop newState K" if "K \<in> set (keys newState)"
    using that by (simp add: cm originalSetState_def getprop_spread [OF dns])
  show ?thesis
    using once post by (simp add: wr d)
qed

theorem watcher_dispatch_witness:
  "setState (Suc 0) (fst (createStore (Suc 0) [(''count'', Num 1)] (Some count_addons)))
       (PlainObj [(''count'', Num 1)]) None \<lparr>state = [(''count'', Num 1)], console = []\<rparr>
     = Some (Normal \<lparr>state = [(''count'', Num 1)],
                     console = [LogObj ''count'' [(''newValue'', Num 1), (''oldValue'', Num 1)]]\<rparr>)"
proof -
  let ?cl = "fst (createStore (Suc 0) [(''count'', Num 1)] (Some count_addons))"
  let ?ch = "[(''count'', Num 1)]"
  let ?w = "\<lparr>state = ?ch, console = []\<rparr>"
  have lg: "logOperations ?cl None = False"
    by (simp add: count_store logOperations_def LogLevel_None_def)
  have rc: "recompute (computed ?cl) (state ?w) ?ch (computedPropDependencies ?cl) [] = Inr []"
    by (simp add: count_store)
  have ch: "?ch = resolve (PlainObj ?ch) (state ?w)"
    by (simp add: resolve_def)
  have dch: "distinct (keys ?ch)"
    by (simp add: keys_def)
  have ns: "?ch = spread ?ch []"
    by (simp add: spread_def)
  have cm: "?w = originalSetState ?ch (log_computed False [] (log_start ?cl False (state ?w) ?ch ?w))"
    by (simp add: originalSetState_def log_computed_def log_start_def console_do_def
          spread_def assign_def keys_def Let_def)
  have dw: "distinct (keys (watchers ?cl))"
    by (simp add: count_store keys_def)
  have ws: "watchers ?cl = [] @ (''count'', record_call ''count'') # []"
    by (simp add: count_store)
  have pre: "dispatch (setState 0 ?cl) False [] ?ch (state ?w) ?w = Some (Normal ?w)"
    by simp
  have hit: "''count'' \<in> set (keys ?ch)"
    by (simp add: keys_def)
  from watcher_dispatch [OF rc ch dch lg [symmetric] ns cm dw ws pre] hit
  have "setState (Suc 0) ?cl (PlainObj ?ch) None ?w
          = finish ?cl False
              (case record_call ''count'' (setState 0 ?cl) (getprop ?ch ''count'') (getprop (state ?w) ''count'')
                      (console_do False (Log (''Triggering watcher: '' @ ''count'')) ?w) of
                 None \<Rightarrow> None
               | Some (Threw e w') \<Rightarrow> Some (Threw e w')
               | Some (Normal w2) \<Rightarrow> dispatch (setState 0 ?cl) False [] ?ch (state ?w) w2)"
    by blast
  then show ?thesis
    by (simp add: record_call_def console_do_def getprop_def finish_False)
qed

section \<open>Logging\<close>

lemma logged_store:
  "fst (createStore (Suc 0) [] (Some logged_addons))
     = \<lparr>computed = [], computedPropDependencies = [], watchers = [],
        settings = \<lparr>name = ''MyStore'', logLevel = ''diff''\<rparr>\<rparr>"
  by (simp add: createStore_def configComputed_def configWatchers_def logged_addons_def
        LogLevel_Diff_def Let_def keys_def)

text \<open>
  C8, as stated, fails. The option the code reads is \<open>excludeInLogs\<close>. A write with the
  options \<open>{ excludeFromLog: true }\<close> to a store that logs at level \<open>diff\<close> opens the
  log group, logs the changes and closes the group.
\<close>

theorem excludeFromLog_still_logs:
  "setState (Suc 0) (fst (createStore (Suc 0) [] (Some logged_addons)))
       (PlainObj [(''a'', Num 1)]) (Some [(''excludeFromLog'', Bool True)]) empty_world
     = Some (Normal \<lparr>state = [(''a'', Num 1)],
                     console = [Group ''MyStore state changed'', LogObj ''Applying'' [(''a'', Num 1)], GroupEnd]\<rparr>)"
  unfolding logged_store
  by (simp add: setState_def empty_world_def logOperations_def LogLevel_None_def LogLevel_All_def resolve_def
        log_start_def log_computed_def log_end_def finish_def console_do_def originalSetState_def
        keys_def spread_def assign_def getprop_def Let_def)

lemma log_start_True:
  "log_start cl True cur ch w
     = w\<lparr>console := console w @ [Group (name (settings cl) @ '' state changed'')]
            @ (if logLevel (settings cl) = LogLevel_All then [LogObj ''Previous State'' cur] else [])
            @ [LogObj ''Applying'' ch]\<rparr>"
  by (simp add: log_start_def console_do_def Let_def)

lemma log_start_False: "log_start cl False cur ch w = w"
  by (simp add: log_start_def console_do_def Let_def)

lemma log_computed_False: "log_computed False uc w = w"
  by (simp add: log_computed_def console_do_def)

lemma log_end_True:
  "log_end cl True w
     = w\<lparr>console := console w
            @ (if logLevel (settings cl) = LogLevel_All then [LogObj ''New State'' (state w)] else [])
            @ [GroupEnd]\<rparr>"
  by (simp add: log_end_def console_do_def)

lemma finish_True:
  "finish cl True r
     = (case r of
          None \<Rightarrow> None
        | Some (Threw e w') \<Rightarrow> Some (Threw e w')
        | Some (Normal w6) \<Rightarrow>
            Some (Normal (w6\<lparr>console := console w6
                    @ (if logLevel (settings cl) = LogLevel_All then [LogObj ''New State'' (state w6)] else [])
                    @ [GroupEnd]\<rparr>)))"
  by (simp add: finish_def log_end_True split: option.splits outcome.splits)

text \<open>
  C8, amended. Take a write whose recomputation pass succeeded. If its options hold a
  truthy \<open>excludeInLogs\<close>, the write makes no console call of its own, whatever the log
  level: it commits and dispatches, and that is all. Otherwise it logs exactly when the
  log level is not \<open>none\<close>: at level \<open>none\<close> it again only commits and dispatches; at
  any other level it opens the group and logs the changes (and the previous state at level
  \<open>all\<close>) before the commit, logs each watcher it triggers, and closes the group when the
  dispatch returns.
\<close>

theorem write_logging:
  assumes rc: "recompute (computed cl) (state w) changes (computedPropDependencies cl) [] = Inr updatedComputed"
    and ch: "changes = resolve partialState (state w)"
    and ns: "newState = spread changes updatedComputed"
    and ex: "exclude = truthy (case setSettings of None \<Rightarrow> Undefined | Some s \<Rightarrow> getprop s ''excludeInLogs'')"
  shows "(exclude \<longrightarrow>
            setMiddleware (Suc n) cl (partialState, setSettings) setFn w
              = dispatch (setState n cl) False (watchers cl) newState (state w) (setFn newState w))
         \<and> (\<not> exclude \<longrightarrow>
              logOperations cl setSettings = (logLevel (settings cl) \<noteq> LogLevel_None)
            \<and> (logLevel (settings cl) = LogLevel_None \<longrightarrow>
                 setMiddleware (Suc n) cl (partialState, setSettings) setFn w
                   = dispatch (setState n cl) False (watchers cl) newState (state w) (setFn newState w))
            \<and> (logLevel (settings cl) \<noteq> LogLevel_None \<longrightarrow>
                 setMiddleware (Suc n) cl (partialState, setSettings) setFn w
                   = (case dispatch (setState n cl) True (watchers cl) newState (state w)
                             (setFn newState
                                (log_computed True updatedComputed
                                   (w\<lparr>console := console w @ [Group (name (settings cl) @ '' state changed'')]
                                         @ (if logLevel (settings cl) = LogLevel_All
                                            then [LogObj ''Previous State'' (state w)] else [])
                                         @ [LogObj ''Applying'' changes]\<rparr>))) of
                        None \<Rightarrow> None
                      | Some (Threw e w') \<Rightarrow> Some (Threw e w')
                      | Some (Normal w6) \<Rightarrow>
                          Some (Normal (w6\<lparr>console := console w6
                                  @ (if logLevel (settings cl) = LogLevel_All
                                     then [LogObj ''New State'' (state w6)] else [])
                                  @ [GroupEnd]\<rparr>)))))"
proof -
  have wr: "setMiddleware (Suc n) cl (partialState, setSettings) setFn w
              = finish cl (logOperations cl setSettings)
                  (dispatch (setState n cl) (logOperations cl setSettings) (watchers cl) newState (state w)
                     (setFn newState
                        (log_computed (logOperations cl setSettings) updatedComputed
                           (log_start cl (logOperations cl setSettings) (state w) changes w))))"
    unfolding ch ns by (rule setMiddleware_Suc) (use rc in \<open>simp add: ch\<close>)
  have off: "setMiddleware (Suc n) cl (partialState, setSettings) setFn w
              = dispatch (setState n cl) False (watchers cl) newState (state w) (setFn newState w)"
    if "\<not> logOperations cl setSettings"
    using that unfolding wr by (simp add: finish_False log_computed_False log_start_False)
  have on: "setMiddleware (Suc n) cl (partialState, setSettings) setFn w
                   = (case dispatch (setState n cl) True (watchers cl) newState (state w)
                             (setFn newState
                                (log_computed True updatedComputed
                                   (w\<lparr>console := console w @ [Group (name (settings cl) @ '' state changed'')]
                                         @ (if logLevel (settings cl) = LogLevel_All
                                            then [LogObj ''Previous State'' (state w)] else [])
                                         @ [LogObj ''Applying'' changes]\<rparr>))) of
                        None \<Rightarrow> None
                      | Some (Threw e w') \<Rightarrow> Some (Threw e w')
                      | Some (Normal w6) \<Rightarrow>
                          Some (Normal (w6\<lparr>console := console w6
                                  @ (if logLevel (settings cl) = LogLevel_All
                                     then [LogObj ''New State'' (state w6)] else [])
                                  @ [GroupEnd]\<rparr>)))"
    if "logOperations cl setSettings"
    using that unfolding wr by (simp only: finish_True log_start_True)
  have lg: "logOperations cl setSettings = (\<not> exclude \<and> logLevel (settings cl) \<noteq> LogLevel_None)"
    by (simp add: logOperations_def ex)
  show ?thesis
    using off on unfolding lg by blast
qed

theorem write_logging_witness:
  "setMiddleware (Suc 0) (fst (createStore (Suc 0) [] (Some logged_addons)))
       (PlainObj [(''a'', Num 1)], Some [(''excludeInLogs'', Bool True)]) originalSetState empty_world
     = Some (Normal \<lparr>state = [(''a'', Num 1)], console = []\<rparr>)
   \<and> setMiddleware (Suc 0) (fst (createStore (Suc 0) [] (Some logged_addons)))
       (PlainObj [(''a'', Num 1)], None) originalSetState empty_world
     = Some (Normal \<lparr>state = [(''a'', Num 1)],
                     console = [Group ''MyStore state changed'', LogObj ''Applying'' [(''a'', Num 1)], GroupEnd]\<rparr>)"
proof -
  let ?cl = "fst (createStore (Suc 0) [] (Some logged_addons))"
  let ?ch = "[(''a'', Num 1)]"
  have rc: "recompute (computed ?cl) (state empty_world) ?ch (computedPropDependencies ?cl) [] = Inr []"
    by (simp add: logged_store)
  have ch: "?ch = resolve (PlainObj ?ch) (state empty_world)"
    by (simp add: resolve_def)
  have ns: "?ch = spread ?ch []"
    by (simp add: spread_def)
  have ex1: "True = truthy (case Some [(''excludeInLogs'', Bool True)] of None \<Rightarrow> Undefined
                             | Some s \<Rightarrow> getprop s ''excludeInLogs'')"
    by (simp add: getprop_def)
  have ex2: "False = truthy (case (None :: obj option) of None \<Rightarrow> Undefined | Some s \<Rightarrow> getprop s ''excludeInLogs'')"
    by simp
  have lv: "logLevel (settings ?cl) \<noteq> LogLevel_None" "logLevel (settings ?cl) \<noteq> LogLevel_All"
    "name (settings ?cl) = ''MyStore''" "watchers ?cl = []"
    by (simp_all add: logged_store LogLevel_None_def LogLevel_All_def)
  have st: "originalSetState ?ch w = w\<lparr>state := spread (state w) ?ch\<rparr>" for w
    by (simp add: originalSetState_def)
  have sp: "spread [] ?ch = ?ch"
    by (simp add: spread_def assign_def)
  from write_logging [OF rc ch ns ex1, of 0 originalSetState]
  have 1: "setMiddleware (Suc 0) ?cl (PlainObj ?ch, Some [(''excludeInLogs'', Bool True)]) originalSetState empty_world
             = Some (Normal \<lparr>state = ?ch, console = []\<rparr>)"
    by (simp add: lv st sp empty_world_def del: setMiddleware.simps)
  from write_logging [OF rc ch ns ex2, of 0 originalSetState] lv(1,2)
  have 2: "setMiddleware (Suc 0) ?cl (PlainObj ?ch, None) originalSetState empty_world
             = Some (Normal \<lparr>state = ?ch,
                     console = [Group ''MyStore state changed'', LogObj ''Applying'' ?ch, GroupEnd]\<rparr>)"
    by (simp add: lv st sp empty_world_def log_computed_def keys_def del: setMiddleware.simps)
  from 1 2 show ?thesis by simp
qed

section \<open>Write paths\<close>







end
